theory Spec2Isabelle
  imports Main "HOL-Library.Sublist"
begin

section \<open>Text, characters and the string primitives of the source\<close>

text \<open>
  The program \<^verbatim>\<open>fix_latex_smart.py\<close> works on Python strings. A string is modelled
  as a \<^typ>\<open>string\<close>, each \<^typ>\<open>char\<close> read as the code point of the same number
  (U+0000 to U+00FF). The character classes of the regular expressions and of
  \<^verbatim>\<open>str.strip\<close> are the ones Python uses on these code points. The em dash and the
  en dash of the separator set of \<^verbatim>\<open>is_pure_separator\<close> are code points above U+00FF;
  no modelled text contains them.
\<close>

abbreviation bsl :: char where
  "bsl \<equiv> CHR 0x5C"

abbreviation nl :: char where
  "nl \<equiv> CHR 0x0A"

definition is_space :: "char \<Rightarrow> bool" where
  \<comment> \<open>\<^verbatim>\<open>str.isspace\<close>, which is also the class \<^verbatim>\<open>\s\<close> of a str pattern\<close>
  "is_space c =
     (let n = (of_char c :: nat)
      in (9 \<le> n \<and> n \<le> 13) \<or> (28 \<le> n \<and> n \<le> 32) \<or> n = 133 \<or> n = 160)"

definition is_word :: "char \<Rightarrow> bool" where
  \<comment> \<open>the class \<^verbatim>\<open>\w\<close> of a str pattern: alphanumeric or underscore\<close>
  "is_word c =
     (let n = (of_char c :: nat)
      in (48 \<le> n \<and> n \<le> 57) \<or> (65 \<le> n \<and> n \<le> 90) \<or> n = 95 \<or> (97 \<le> n \<and> n \<le> 122)
         \<or> n = 170 \<or> n = 178 \<or> n = 179 \<or> n = 181 \<or> n = 185 \<or> n = 186
         \<or> (188 \<le> n \<and> n \<le> 190) \<or> (192 \<le> n \<and> n \<le> 214)
         \<or> (216 \<le> n \<and> n \<le> 246) \<or> (248 \<le> n \<and> n \<le> 255))"

definition is_ascii_letter :: "char \<Rightarrow> bool" where
  \<comment> \<open>the class \<^verbatim>\<open>[A-Za-z]\<close>\<close>
  "is_ascii_letter c =
     (let n = (of_char c :: nat)
      in (65 \<le> n \<and> n \<le> 90) \<or> (97 \<le> n \<and> n \<le> 122))"

definition lstrip :: "string \<Rightarrow> string" where
  "lstrip s = dropWhile is_space s"

definition rstrip :: "string \<Rightarrow> string" where
  "rstrip s = rev (dropWhile is_space (rev s))"

definition strip :: "string \<Rightarrow> string" where
  "strip s = rstrip (lstrip s)"

fun starts_with :: "string \<Rightarrow> string \<Rightarrow> bool" where
  "starts_with s [] = True"
| "starts_with [] (p # ps) = False"
| "starts_with (c # cs) (p # ps) = (c = p \<and> starts_with cs ps)"

definition slice :: "string \<Rightarrow> nat \<Rightarrow> nat \<Rightarrow> string" where
  \<comment> \<open>\<^verbatim>\<open>s[a:b]\<close> for \<open>0 \<le> a\<close>, \<open>0 \<le> b\<close>\<close>
  "slice s a b = take (b - a) (drop a s)"

fun find_loop :: "string \<Rightarrow> string \<Rightarrow> nat \<Rightarrow> nat option" where
  "find_loop sub [] j = (if sub = [] then Some j else None)"
| "find_loop sub (c # cs) j =
     (if starts_with (c # cs) sub then Some j else find_loop sub cs (Suc j))"

definition py_find :: "string \<Rightarrow> string \<Rightarrow> nat \<Rightarrow> nat option" where
  \<comment> \<open>\<^verbatim>\<open>s.find(sub, start)\<close>; \<open>None\<close> is the result -1\<close>
  "py_find s sub start =
     (if start \<le> length s then find_loop sub (drop start s) start else None)"

fun first_some :: "('a \<Rightarrow> 'b option) \<Rightarrow> 'a list \<Rightarrow> 'b option" where
  \<comment> \<open>an alternation: the first alternative, in order, with which the whole match succeeds\<close>
  "first_some f [] = None"
| "first_some f (x # xs) = (case f x of Some y \<Rightarrow> Some y | None \<Rightarrow> first_some f xs)"

fun split_nl :: "string \<Rightarrow> string list" where
  \<comment> \<open>\<^verbatim>\<open>content.split('\n')\<close>\<close>
  "split_nl [] = [[]]"
| "split_nl (c # cs) =
     (if c = nl then [] # split_nl cs
      else (case split_nl cs of l # ls \<Rightarrow> (c # l) # ls | [] \<Rightarrow> [[c]]))"

fun join_nl :: "string list \<Rightarrow> string" where
  \<comment> \<open>\<^verbatim>\<open>'\n'.join(lines)\<close>\<close>
  "join_nl [] = []"
| "join_nl [l] = l"
| "join_nl (l # l' # ls) = l @ nl # join_nl (l' # ls)"

section \<open>The math-span classifier\<close>

definition LATEX_COMMANDS :: "string list" where
  "LATEX_COMMANDS =
     [''frac'', ''int'', ''sum'', ''prod'', ''sqrt'', ''partial'', ''infty'', ''pm'', ''mp'',
      ''times'', ''div'', ''cdot'', ''circ'', ''sim'',
      ''approx'', ''equiv'', ''leq'', ''geq'', ''neq'', ''rightarrow'', ''leftarrow'',
      ''leftrightarrow'', ''boxed'', ''mid'',
      ''Rightarrow'', ''Leftarrow'', ''to'', ''mapsto'', ''text'', ''mathcal'', ''mathbb'',
      ''mathrm'', ''mathbf'',
      ''hat'', ''bar'', ''vec'', ''dot'', ''tilde'', ''lim'', ''max'', ''min'', ''log'', ''exp'',
      ''sin'', ''cos'', ''tan'',
      ''alpha'', ''beta'', ''gamma'', ''delta'', ''epsilon'', ''zeta'', ''eta'', ''theta'',
      ''iota'', ''kappa'', ''lambda'', ''mu'', ''nu'',
      ''xi'', ''pi'', ''rho'', ''sigma'', ''tau'', ''upsilon'', ''phi'', ''chi'', ''psi'',
      ''omega'',
      ''Alpha'', ''Beta'', ''Gamma'', ''Delta'', ''Epsilon'', ''Zeta'', ''Eta'', ''Theta'',
      ''Lambda'', ''Mu'', ''Nu'',
      ''Xi'', ''Pi'', ''Rho'', ''Sigma'', ''Tau'', ''Upsilon'', ''Phi'', ''Chi'', ''Psi'',
      ''Omega'']"

definition command_at :: "string \<Rightarrow> bool" where
  \<comment> \<open>the pattern \<^verbatim>\<open>LATEX_COMMANDS\<close> matches at the head of the text\<close>
  "command_at s =
     (case s of [] \<Rightarrow> False
      | c # cs \<Rightarrow> c = bsl \<and> list_ex (starts_with cs) LATEX_COMMANDS)"

fun is_math :: "string \<Rightarrow> bool" where
  \<comment> \<open>\<^verbatim>\<open>bool(LATEX_COMMANDS.search(text))\<close>: a match at some position\<close>
  "is_math [] = False"
| "is_math (c # cs) = (command_at (c # cs) \<or> is_math cs)"

section \<open>The nested-parenthesis extractor\<close>

fun paren_loop :: "string \<Rightarrow> nat \<Rightarrow> nat \<Rightarrow> int \<Rightarrow> string \<Rightarrow> (string \<times> nat) option" where
  \<comment> \<open>the \<^verbatim>\<open>for i, c in enumerate(s[start:], start)\<close> loop; the last argument is what
      is left of \<^verbatim>\<open>s[start:]\<close>, \<open>i\<close> the index of its head\<close>
  "paren_loop s start i depth [] = None"
| "paren_loop s start i depth (c # cs) =
     (if c = CHR ''('' then paren_loop s start (Suc i) (depth + 1) cs
      else if c = CHR '')'' then
        (if depth - 1 = 0 then Some (slice s (Suc start) i, i)
         else paren_loop s start (Suc i) (depth - 1) cs)
      else paren_loop s start (Suc i) depth cs)"

definition extract_paren_content :: "string \<Rightarrow> nat \<Rightarrow> (string \<times> nat) option" where
  \<comment> \<open>\<open>None\<close> is the result \<^verbatim>\<open>(None, -1)\<close>\<close>
  "extract_paren_content s start =
     (if start \<ge> length s \<or> s ! start \<noteq> CHR ''('' then None
      else paren_loop s start start 0 (drop start s))"

section \<open>The math-content normalizer\<close>

text \<open>
  Each \<^verbatim>\<open>re.sub\<close> scans the text from the left: where the pattern matches at the
  current position the replacement is written and the scan resumes after the match,
  otherwise one character is copied. No pattern of the source matches the empty string.
  A matcher returns the captured groups and the text after the match.
\<close>

definition STYLE_NAMES :: "string list" where
  "STYLE_NAMES = [''mathcal'', ''mathbb'', ''mathrm'', ''mathbf'', ''text'']"

definition style_tail :: "string \<Rightarrow> string \<Rightarrow> (string \<times> char \<times> string) option" where
  \<comment> \<open>after the backslash: the name \<open>n\<close>, then \<^verbatim>\<open>\s+([A-Za-z])\<close>\<close>
  "style_tail r n =
     (if starts_with r n then
        (let r2 = drop (length n) r; ws = takeWhile is_space r2
         in (case dropWhile is_space r2 of
               [] \<Rightarrow> None
             | l # r4 \<Rightarrow> if ws \<noteq> [] \<and> is_ascii_letter l then Some (n, l, r4) else None))
      else None)"

definition match_style :: "string \<Rightarrow> (string \<times> char \<times> string) option" where
  \<comment> \<open>\<^verbatim>\<open>\\(mathcal|mathbb|mathrm|mathbf|text)\s+([A-Za-z])\<close> at the head\<close>
  "match_style s =
     (case s of [] \<Rightarrow> None
      | c # r \<Rightarrow> if c = bsl then first_some (style_tail r) STYLE_NAMES else None)"

definition match_thin :: "string \<Rightarrow> (string \<times> string \<times> string) option" where
  \<comment> \<open>\<^verbatim>\<open>,(\s*)(d\w+)\<close> at the head\<close>
  "match_thin s =
     (case s of [] \<Rightarrow> None
      | c # r \<Rightarrow>
          if c = CHR '','' then
            (case dropWhile is_space r of
               [] \<Rightarrow> None
             | d # r3 \<Rightarrow>
                 if d = CHR ''d'' \<and> takeWhile is_word r3 \<noteq> [] then
                   Some (takeWhile is_space r, d # takeWhile is_word r3, dropWhile is_word r3)
                 else None)
          else None)"

definition REL_NAMES :: "string list" where
  "REL_NAMES = [''sim'', ''circ'', ''mid'', ''approx'', ''equiv'', ''cdot'']"

definition rel_tail :: "string \<Rightarrow> string \<Rightarrow> (string \<times> string) option" where
  \<comment> \<open>after \<^verbatim>\<open>;\s*\<close>: the command \<open>\\n\<close>, then \<^verbatim>\<open>\s*;\<close>\<close>
  "rel_tail r n =
     (if starts_with r (bsl # n) then
        (case dropWhile is_space (drop (Suc (length n)) r) of
           [] \<Rightarrow> None
         | c # r4 \<Rightarrow> if c = CHR '';'' then Some (bsl # n, r4) else None)
      else None)"

definition match_rel :: "string \<Rightarrow> (string \<times> string) option" where
  \<comment> \<open>\<^verbatim>\<open>;\s*(\\sim|\\circ|\\mid|\\approx|\\equiv|\\cdot)\s*;\<close> at the head\<close>
  "match_rel s =
     (case s of [] \<Rightarrow> None
      | c # r \<Rightarrow>
          if c = CHR '';'' then first_some (rel_tail (dropWhile is_space r)) REL_NAMES
          else None)"

definition match_dollar :: "string \<Rightarrow> (string \<times> string) option" where
  \<comment> \<open>\<^verbatim>\<open>\$([^$]*)\$\<close> at the head\<close>
  "match_dollar s =
     (case s of [] \<Rightarrow> None
      | c # r \<Rightarrow>
          if c = CHR ''$'' then
            (case dropWhile (\<lambda>x. x \<noteq> CHR ''$'') r of
               [] \<Rightarrow> None
             | e # r2 \<Rightarrow> Some (takeWhile (\<lambda>x. x \<noteq> CHR ''$'') r, r2))
          else None)"

lemma first_some_SomeD:
  "first_some f xs = Some y \<Longrightarrow> \<exists>x \<in> set xs. f x = Some y"
  by (induction xs) (auto split: option.splits)

lemma length_dropWhile_less_Suc: "length (dropWhile P xs) < Suc (length xs)"
  by (simp add: length_dropWhile_le less_Suc_eq_le)

lemma style_tail_shorter: "style_tail r n = Some (m, l, r4) \<Longrightarrow> length r4 < length r"
proof -
  assume a: "style_tail r n = Some (m, l, r4)"
  then have "dropWhile is_space (drop (length n) r) = l # r4"
    by (auto simp: style_tail_def Let_def split: if_splits list.splits)
  then have "Suc (length r4) = length (dropWhile is_space (drop (length n) r))"
    by simp
  also have "\<dots> \<le> length (drop (length n) r)"
    by (rule length_dropWhile_le)
  also have "\<dots> \<le> length r"
    by simp
  finally show ?thesis by simp
qed

lemma match_style_shorter: "match_style s = Some (m, l, r4) \<Longrightarrow> length r4 < length s"
  by (auto simp: match_style_def split: list.splits if_splits
      dest!: first_some_SomeD style_tail_shorter)

lemma match_thin_shorter: "match_thin s = Some (ws, tok, r) \<Longrightarrow> length r < length s"
proof -
  assume a: "match_thin s = Some (ws, tok, r)"
  then obtain c r0 d r3 where s: "s = c # r0" and d: "dropWhile is_space r0 = d # r3"
    and r: "r = dropWhile is_word r3"
    by (auto simp: match_thin_def split: list.splits if_splits)
  have "length r \<le> length r3"
    unfolding r by (rule length_dropWhile_le)
  also have "\<dots> < length (dropWhile is_space r0)"
    by (simp add: d)
  also have "\<dots> \<le> length r0"
    by (rule length_dropWhile_le)
  finally show ?thesis by (simp add: s)
qed

lemma rel_tail_shorter: "rel_tail r n = Some (m, r4) \<Longrightarrow> length r4 < length r"
proof -
  assume a: "rel_tail r n = Some (m, r4)"
  then obtain c where "dropWhile is_space (drop (Suc (length n)) r) = c # r4"
    by (auto simp: rel_tail_def split: if_splits list.splits)
  then have "Suc (length r4) = length (dropWhile is_space (drop (Suc (length n)) r))"
    by simp
  also have "\<dots> \<le> length (drop (Suc (length n)) r)"
    by (rule length_dropWhile_le)
  also have "\<dots> \<le> length r"
    by simp
  finally show ?thesis by simp
qed

lemma match_rel_shorter: "match_rel s = Some (m, r4) \<Longrightarrow> length r4 < length s"
proof -
  assume a: "match_rel s = Some (m, r4)"
  then obtain c r0 n where s: "s = c # r0"
    and t: "rel_tail (dropWhile is_space r0) n = Some (m, r4)"
    by (auto simp: match_rel_def split: list.splits if_splits dest!: first_some_SomeD)
  have "length r4 < length (dropWhile is_space r0)"
    using t by (rule rel_tail_shorter)
  also have "\<dots> \<le> length r0"
    by (rule length_dropWhile_le)
  finally show ?thesis by (simp add: s)
qed

lemma match_dollar_shorter: "match_dollar s = Some (inner, r2) \<Longrightarrow> length r2 < length s"
proof -
  assume a: "match_dollar s = Some (inner, r2)"
  then obtain c r0 e where s: "s = c # r0"
    and d: "dropWhile (\<lambda>x. x \<noteq> CHR ''$'') r0 = e # r2"
    by (auto simp: match_dollar_def split: list.splits if_splits)
  have "length r2 < length (dropWhile (\<lambda>x. x \<noteq> CHR ''$'') r0)"
    by (simp add: d)
  also have "\<dots> \<le> length r0"
    by (rule length_dropWhile_le)
  finally show ?thesis by (simp add: s)
qed

function sub_style :: "string \<Rightarrow> string" where
  \<comment> \<open>step 1: replacement \<^verbatim>\<open>\\\1{\2}\<close>\<close>
  "sub_style [] = []"
| "sub_style (c # cs) =
     (case match_style (c # cs) of
        None \<Rightarrow> c # sub_style cs
      | Some (n, l, rest) \<Rightarrow> (bsl # n) @ ''{'' @ [l] @ ''}'' @ sub_style rest)"
  by pat_completeness auto
termination
  by (relation "measure length") (auto dest: match_style_shorter)

function sub_thin :: "string \<Rightarrow> string" where
  \<comment> \<open>step 2: replacement \<^verbatim>\<open>\,\1\2\<close>\<close>
  "sub_thin [] = []"
| "sub_thin (c # cs) =
     (case match_thin (c # cs) of
        None \<Rightarrow> c # sub_thin cs
      | Some (ws, tok, rest) \<Rightarrow> [bsl, CHR '',''] @ ws @ tok @ sub_thin rest)"
  by pat_completeness auto
termination
  by (relation "measure length") (auto dest: match_thin_shorter)

function sub_rel :: "string \<Rightarrow> string" where
  \<comment> \<open>step 3: replacement \<^verbatim>\<open> \1 \<close>\<close>
  "sub_rel [] = []"
| "sub_rel (c # cs) =
     (case match_rel (c # cs) of
        None \<Rightarrow> c # sub_rel cs
      | Some (cmd, rest) \<Rightarrow> '' '' @ cmd @ '' '' @ sub_rel rest)"
  by pat_completeness auto
termination
  by (relation "measure length") (auto dest: match_rel_shorter)

fun hash_loop :: "bool \<Rightarrow> string \<Rightarrow> string" where
  \<comment> \<open>\<^verbatim>\<open>re.sub(r'(?<!\\)#', r'\\#', line)\<close>; the flag says that the character before
      the current position is a backslash\<close>
  "hash_loop prev_bs [] = []"
| "hash_loop prev_bs (c # cs) =
     (if c = CHR ''#'' \<and> \<not> prev_bs then bsl # c # hash_loop (c = bsl) cs
      else c # hash_loop (c = bsl) cs)"

definition escape_hash_in_math :: "string \<Rightarrow> string" where
  "escape_hash_in_math line = hash_loop False line"

function sub_dollar :: "string \<Rightarrow> string" where
  \<comment> \<open>step 5: replacement \<^verbatim>\<open>\1\<close>\<close>
  "sub_dollar [] = []"
| "sub_dollar (c # cs) =
     (case match_dollar (c # cs) of
        None \<Rightarrow> c # sub_dollar cs
      | Some (inner, rest) \<Rightarrow> inner @ sub_dollar rest)"
  by pat_completeness auto
termination
  by (relation "measure length") (auto dest: match_dollar_shorter)

definition normalize_math :: "string \<Rightarrow> string" where
  "normalize_math text =
     strip (sub_dollar (hash_loop False (sub_rel (sub_thin (sub_style text)))))"

definition rewrite_steps :: "string \<Rightarrow> string" where
  \<comment> \<open>the text after steps 1 to 4 of \<^verbatim>\<open>normalize_math\<close>\<close>
  "rewrite_steps t = hash_loop False (sub_rel (sub_thin (sub_style t)))"

section \<open>Separator lines and the display-block cleaner\<close>

definition is_pure_separator :: "string \<Rightarrow> bool" where
  \<comment> \<open>the separator glyphs below U+0100: equals sign, underscore, hyphen, space\<close>
  "is_pure_separator line =
     (let stripped = strip line
      in if stripped = [] then False
         else list_all (\<lambda>c. c \<in> set ''=_- '') stripped)"

function sub_run :: "char \<Rightarrow> string \<Rightarrow> string" where
  \<comment> \<open>\<^verbatim>\<open>re.sub(r'x{3,}', ' ', line)\<close> for the character \<open>x\<close>\<close>
  "sub_run x [] = []"
| "sub_run x (c # cs) =
     (if 3 \<le> length (takeWhile (\<lambda>y. y = x) (c # cs))
      then CHR '' '' # sub_run x (dropWhile (\<lambda>y. y = x) (c # cs))
      else c # sub_run x cs)"
  by pat_completeness auto
termination
  by (relation "measure (\<lambda>(x, s). length s)")
     (auto simp: length_dropWhile_less_Suc split: if_splits)

function collapse_ws :: "string \<Rightarrow> string" where
  \<comment> \<open>\<^verbatim>\<open>re.sub(r'\s+', ' ', line)\<close>\<close>
  "collapse_ws [] = []"
| "collapse_ws (c # cs) =
     (if is_space c then CHR '' '' # collapse_ws (dropWhile is_space cs)
      else c # collapse_ws cs)"
  by pat_completeness auto
termination
  by (relation "measure length") (auto simp: length_dropWhile_less_Suc)

definition clean_line :: "string \<Rightarrow> string" where
  \<comment> \<open>the rewrites of one kept line, in the order of the source\<close>
  "clean_line line =
     collapse_ws (escape_hash_in_math
       (sub_run (CHR ''_'') (sub_run (CHR ''-'') (sub_run (CHR ''='') line))))"

fun clean_display_lines :: "string list \<Rightarrow> string list" where
  "clean_display_lines [] = []"
| "clean_display_lines (line # lines) =
     (if is_pure_separator line then clean_display_lines lines
      else if strip (clean_line line) \<noteq> []
        then rstrip (clean_line line) # clean_display_lines lines
        else clean_display_lines lines)"

section \<open>The inline-conversion scanner\<close>

definition cip_step :: "string \<Rightarrow> nat \<Rightarrow> string \<times> nat" where
  \<comment> \<open>one turn of the \<^verbatim>\<open>while\<close> loop at index \<open>i < len(line)\<close>: what is appended to the
      result, and the next index\<close>
  "cip_step line i =
     (let char = ([line ! i], Suc i);
          paren =
            (if line ! i = CHR ''('' then
               (case extract_paren_content line i of
                  None \<Rightarrow> char
                | Some (content, end) \<Rightarrow>
                    if is_math content
                    then (''$'' @ normalize_math content @ ''$'', Suc end)
                    else char)
             else char)
      in if line ! i = CHR ''$'' then
           (if slice line i (i + 2) = ''$$'' then
              (case py_find line ''$$'' (i + 2) of
                 Some end \<Rightarrow> (slice line i (end + 2), end + 2)
               | None \<Rightarrow> paren)
            else
              (case py_find line ''$'' (i + 1) of
                 Some end \<Rightarrow> (slice line i (end + 1), end + 1)
               | None \<Rightarrow> paren))
         else paren)"

lemma find_loop_ge: "find_loop sub cs j = Some e \<Longrightarrow> j \<le> e"
  by (induction cs arbitrary: j) (auto split: if_splits dest: Suc_leD)

lemma py_find_ge: "py_find s sub start = Some e \<Longrightarrow> start \<le> e"
  by (auto simp: py_find_def split: if_splits dest: find_loop_ge)

lemma paren_loop_ge: "paren_loop s start i depth cs = Some (content, e) \<Longrightarrow> i \<le> e"
  by (induction cs arbitrary: i depth) (auto split: if_splits dest: Suc_leD)

lemma extract_paren_content_ge:
  "extract_paren_content s start = Some (content, e) \<Longrightarrow> start \<le> e"
  by (auto simp: extract_paren_content_def split: if_splits dest: paren_loop_ge)

lemma cip_step_advances: "cip_step line i = (out, j) \<Longrightarrow> i < j"
  by (auto simp: cip_step_def Let_def split: if_splits option.splits
      dest!: py_find_ge extract_paren_content_ge)

function cip_loop :: "string \<Rightarrow> nat \<Rightarrow> string" where
  \<comment> \<open>the \<^verbatim>\<open>while i < len(line)\<close> loop from index \<open>i\<close>: the pieces appended from there
      on, joined\<close>
  "cip_loop line i =
     (if i < length line
      then (case cip_step line i of (out, j) \<Rightarrow> out @ cip_loop line j)
      else [])"
  by pat_completeness auto
termination
  by (relation "measure (\<lambda>(line, i). length line - i)")
     (auto dest!: cip_step_advances [OF sym])

declare cip_loop.simps [simp del]

definition convert_inline_parens :: "string \<Rightarrow> string" where
  "convert_inline_parens line = cip_loop line 0"

section \<open>Remote images\<close>

fun image_tail :: "string \<Rightarrow> bool" where
  \<comment> \<open>\<^verbatim>\<open>.*?\]\(https?://\<close> at the head: the lazy run of characters other than the
      newline stops at the first place where the rest of the pattern matches\<close>
  "image_tail [] = False"
| "image_tail (c # cs) =
     (starts_with (c # cs) ''](http://'' \<or> starts_with (c # cs) ''](https://''
      \<or> (c \<noteq> nl \<and> image_tail cs))"

definition is_remote_image :: "string \<Rightarrow> bool" where
  \<comment> \<open>\<^verbatim>\<open>bool(re.match(r'!\[.*?\]\(https?://', line.strip()))\<close>\<close>
  "is_remote_image line =
     (starts_with (strip line) ''!['' \<and> image_tail (drop 2 (strip line)))"

section \<open>The document-level block processor\<close>

abbreviation not_close :: "string \<Rightarrow> string \<Rightarrow> bool" where
  "not_close term l \<equiv> strip l \<noteq> term"

definition display_block :: "string list \<Rightarrow> string list" where
  \<comment> \<open>what a display block appends to the result, from its interior lines\<close>
  "display_block block_lines =
     (let cleaned = clean_display_lines block_lines
      in if cleaned \<noteq> [] then [[], ''$$''] @ cleaned @ [''$$'', []] else [])"

lemma length_drop1_dropWhile: "length (dropWhile P xs) - Suc 0 < Suc (length xs)"
  using length_dropWhile_le [of P xs] by simp

function process :: "bool \<Rightarrow> string list \<Rightarrow> string list" where
  \<comment> \<open>the main \<^verbatim>\<open>while i < len(lines)\<close> loop of \<^verbatim>\<open>fix_content\<close>: the flag is
      \<^verbatim>\<open>in_code_block\<close>, the list is \<^verbatim>\<open>lines[i:]\<close>, the value is what the loop
      appends to \<^verbatim>\<open>result\<close> from there on\<close>
  "process in_code_block [] = []"
| "process in_code_block (line # rest) =
     (if starts_with (strip line) ''```'' then line # process (\<not> in_code_block) rest
      else if in_code_block then line # process in_code_block rest
      else if is_remote_image line then process in_code_block rest
      else if strip line = ''['' then
        display_block (takeWhile (not_close '']'') rest)
          @ process in_code_block (drop 1 (dropWhile (not_close '']'') rest))
      else if strip line = ''$$'' then
        display_block (takeWhile (not_close ''$$'') rest)
          @ process in_code_block (drop 1 (dropWhile (not_close ''$$'') rest))
      else convert_inline_parens (escape_hash_in_math line) # process in_code_block rest)"
  by pat_completeness auto
termination
  by (relation "measure (\<lambda>(b, ls). length ls)")
     (auto simp: length_drop1_dropWhile)

declare process.simps(2) [simp del]

fun collapse_blank :: "bool \<Rightarrow> string list \<Rightarrow> string list" where
  \<comment> \<open>the final loop; the flag is \<^verbatim>\<open>prev_empty\<close>\<close>
  "collapse_blank prev_empty [] = []"
| "collapse_blank prev_empty (line # lines) =
     (if line = [] then
        (if \<not> prev_empty then line # collapse_blank True lines
         else collapse_blank True lines)
      else line # collapse_blank False lines)"

definition fix_lines :: "string list \<Rightarrow> string list" where
  "fix_lines lines = collapse_blank False (process False lines)"

definition fix_content :: "string \<Rightarrow> string" where
  "fix_content content = join_nl (fix_lines (split_nl content))"

section \<open>Notions of the specification\<close>

text \<open>
  The nesting depth of a text is the number of its opening parentheses minus the number
  of its closing ones. A text is balanced when its depth is zero and no prefix has a
  negative depth. A text that starts with an opening parenthesis is never closed when no
  non-empty prefix has depth zero: the text ends before the depth returns to zero.
\<close>

definition paren_depth :: "string \<Rightarrow> int" where
  "paren_depth p = int (count_list p (CHR ''('')) - int (count_list p (CHR '')''))"

definition balanced :: "string \<Rightarrow> bool" where
  "balanced s \<longleftrightarrow> paren_depth s = 0 \<and> (\<forall>p \<in> set (prefixes s). 0 \<le> paren_depth p)"

definition never_closed :: "string \<Rightarrow> bool" where
  "never_closed s \<longleftrightarrow> (\<forall>p \<in> set (prefixes s). p \<noteq> [] \<longrightarrow> paren_depth p \<noteq> 0)"

text \<open>
  A document in converted form. Every hash sign is escaped (it follows a backslash). A
  line has no convertible span: reading the line from the left, a \<open>$$\<close> with a
  later \<open>$$\<close> and a \<open>$\<close> with a later \<open>$\<close> open a span that is skipped whole, any
  other dollar sign is an ordinary character, and no opening parenthesis met outside
  these spans has a matching closing parenthesis with a recognized command in between
  (\<open>span_content\<close> gives the text up to the matching parenthesis). A line of a display
  block is clean: not empty, no trailing whitespace, not a separator line, no run of
  three equals signs, hyphens or underscores, every whitespace a single space. A display
  block is a \<open>$$\<close> line after an empty line, a non-empty interior of clean lines, a
  \<open>$$\<close> line and an empty line. No line outside a code block is a remote image or a
  lone \<open>[\<close>, and no empty line follows an empty line.
\<close>

fun hashes_escaped :: "bool \<Rightarrow> string \<Rightarrow> bool" where
  "hashes_escaped prev_bs [] = True"
| "hashes_escaped prev_bs (c # cs) = ((c = CHR ''#'' \<longrightarrow> prev_bs) \<and> hashes_escaped (c = bsl) cs)"

fun no_run3 :: "char \<Rightarrow> string \<Rightarrow> bool" where
  "no_run3 x (a # b # c # cs) = (\<not> (a = x \<and> b = x \<and> c = x) \<and> no_run3 x (b # c # cs))"
| "no_run3 x cs = True"

fun single_spaced :: "string \<Rightarrow> bool" where
  "single_spaced [] = True"
| "single_spaced (c # cs) =
     ((is_space c \<longrightarrow> c = CHR '' '' \<and> (case cs of [] \<Rightarrow> True | d # ds \<Rightarrow> \<not> is_space d))
      \<and> single_spaced cs)"

definition cleaned_line :: "string \<Rightarrow> bool" where
  "cleaned_line l \<longleftrightarrow>
     l \<noteq> [] \<and> \<not> is_space (last l) \<and> \<not> is_pure_separator l
     \<and> no_run3 (CHR ''='') l \<and> no_run3 (CHR ''-'') l \<and> no_run3 (CHR ''_'') l
     \<and> hashes_escaped False l \<and> single_spaced l"

fun span_content :: "nat \<Rightarrow> string \<Rightarrow> string option" where
  "span_content d [] = None"
| "span_content d (c # cs) =
     (if c = CHR '')'' then
        (if d = 1 then Some [] else map_option ((#) c) (span_content (d - 1) cs))
      else map_option ((#) c) (span_content (if c = CHR ''('' then Suc d else d) cs))"

function no_convertible_span :: "string \<Rightarrow> bool" where
  "no_convertible_span [] = True"
| "no_convertible_span (c # cs) =
     (if c = CHR ''$'' then
        (if starts_with cs ''$'' then
           (case find_loop ''$$'' (drop 1 cs) 0 of
              Some k \<Rightarrow> no_convertible_span (drop (k + 3) cs)
            | None \<Rightarrow> no_convertible_span cs)
         else
           (case find_loop ''$'' cs 0 of
              Some k \<Rightarrow> no_convertible_span (drop (k + 1) cs)
            | None \<Rightarrow> no_convertible_span cs))
      else if c = CHR ''('' then
        (case span_content 1 cs of
           Some content \<Rightarrow> \<not> is_math content \<and> no_convertible_span cs
         | None \<Rightarrow> no_convertible_span cs)
      else no_convertible_span cs)"
  by pat_completeness auto
termination
  by (relation "measure length") auto

lemma length_dropWhile_minus:
  "length (dropWhile P xs) - k < Suc (length xs)"
  "length (dropWhile P xs) - k < Suc (Suc (length xs))"
  using length_dropWhile_le [of P xs] by simp_all

function converted :: "bool \<Rightarrow> bool \<Rightarrow> string list \<Rightarrow> bool" where
  "converted in_code prev_blank [] = True"
| "converted in_code prev_blank (l # rest) =
     (if starts_with (strip l) ''```'' then converted (\<not> in_code) False rest
      else if in_code then \<not> (prev_blank \<and> l = []) \<and> converted in_code (l = []) rest
      else if strip l = ''$$'' then
        l = ''$$'' \<and> prev_blank
        \<and> takeWhile (not_close ''$$'') rest \<noteq> []
        \<and> list_all cleaned_line (takeWhile (not_close ''$$'') rest)
        \<and> take 2 (dropWhile (not_close ''$$'') rest) = [''$$'', []]
        \<and> converted in_code True (drop 2 (dropWhile (not_close ''$$'') rest))
      else \<not> (prev_blank \<and> l = []) \<and> \<not> is_remote_image l \<and> strip l \<noteq> ''[''
           \<and> hashes_escaped False l \<and> no_convertible_span l
           \<and> converted in_code (l = []) rest)"
  by pat_completeness auto
termination
  by (relation "measure (\<lambda>(c, b, ls). length ls)") (auto simp: length_dropWhile_minus)

section \<open>Properties of the classifier\<close>

lemma starts_with_iff: "starts_with s p \<longleftrightarrow> (\<exists>r. s = p @ r)"
  by (induction s p rule: starts_with.induct) auto

lemma command_at_iff:
  "command_at s \<longleftrightarrow> (\<exists>name \<in> set LATEX_COMMANDS. \<exists>post. s = bsl # name @ post)"
  by (cases s) (auto simp: command_at_def list_ex_iff starts_with_iff)

lemma is_math_iff_suffix: "is_math t \<longleftrightarrow> (\<exists>pre s. t = pre @ s \<and> command_at s)"
proof (induction t)
  case Nil
  then show ?case by (simp add: command_at_def)
next
  case (Cons c cs)
  show ?case
  proof
    assume "is_math (c # cs)"
    then consider "command_at (c # cs)" | "is_math cs" by auto
    then show "\<exists>pre s. c # cs = pre @ s \<and> command_at s"
    proof cases
      case 1
      then have "c # cs = [] @ (c # cs) \<and> command_at (c # cs)" by simp
      then show ?thesis by blast
    next
      case 2
      then obtain pre s where "cs = pre @ s" "command_at s" using Cons.IH by blast
      then have "c # cs = (c # pre) @ s \<and> command_at s" by simp
      then show ?thesis by blast
    qed
  next
    assume "\<exists>pre s. c # cs = pre @ s \<and> command_at s"
    then obtain pre s where ps: "c # cs = pre @ s" "command_at s" by blast
    show "is_math (c # cs)"
    proof (cases pre)
      case Nil
      then have "command_at (c # cs)" using ps by simp
      then show ?thesis by simp
    next
      case (Cons a pre')
      then have "cs = pre' @ s" using ps by simp
      then have "is_math cs" using Cons.IH ps(2) by blast
      then show ?thesis by simp
    qed
  qed
qed

lemma set_eq_by_list_all:
  "list_all (\<lambda>x. x \<in> set ys) xs \<Longrightarrow> list_all (\<lambda>y. y \<in> set xs) ys \<Longrightarrow> set xs = set ys"
  by (auto simp: list_all_iff)

lemma vocabulary_groups:
  "set LATEX_COMMANDS =
       set [''frac'', ''sqrt'', ''boxed'', ''text'', ''mathcal'', ''mathbb'', ''mathrm'',
            ''mathbf'', ''hat'', ''bar'', ''vec'', ''dot'', ''tilde'']
       \<union> set [''int'', ''sum'', ''prod'', ''partial'', ''infty'', ''pm'', ''mp'', ''times'',
            ''div'', ''cdot'', ''circ'', ''sim'', ''approx'', ''equiv'', ''leq'', ''geq'',
            ''neq'', ''rightarrow'', ''leftarrow'', ''leftrightarrow'', ''mid'',
            ''Rightarrow'', ''Leftarrow'', ''to'', ''mapsto'']
       \<union> set [''lim'', ''max'', ''min'', ''log'', ''exp'', ''sin'', ''cos'', ''tan'']
       \<union> set [''alpha'', ''beta'', ''gamma'', ''delta'', ''epsilon'', ''zeta'', ''eta'',
            ''theta'', ''iota'', ''kappa'', ''lambda'', ''mu'', ''nu'', ''xi'', ''pi'', ''rho'',
            ''sigma'', ''tau'', ''upsilon'', ''phi'', ''chi'', ''psi'', ''omega'']
       \<union> set [''Alpha'', ''Beta'', ''Gamma'', ''Delta'', ''Epsilon'', ''Zeta'', ''Eta'',
            ''Theta'', ''Lambda'', ''Mu'', ''Nu'', ''Xi'', ''Pi'', ''Rho'', ''Sigma'', ''Tau'',
            ''Upsilon'', ''Phi'', ''Chi'', ''Psi'', ''Omega'']"
  unfolding set_append [symmetric]
  by (rule set_eq_by_list_all; code_simp)

text \<open>
  C6, as amended. The classifier is a predicate of the text alone: it holds exactly when
  the text contains a backslash immediately followed by a name of the fixed vocabulary
  \<open>LATEX_COMMANDS\<close>, whatever comes after the name. The vocabulary is made of the
  structural commands, operators, functions and Greek letter names listed below: the
  lower-case Greek names without omicron, the upper-case ones without Iota, Kappa and
  Omicron. The match is case sensitive and asks for no word boundary:
  \<^verbatim>\<open>\alphabet\<close> is math, \<^verbatim>\<open>\ALPHA\<close> is not.
\<close>

theorem is_math_iff_contains_command:
  "(is_math text \<longleftrightarrow>
      (\<exists>pre post. \<exists>name \<in> set LATEX_COMMANDS. text = pre @ bsl # name @ post))
   \<and> set LATEX_COMMANDS =
       set [''frac'', ''sqrt'', ''boxed'', ''text'', ''mathcal'', ''mathbb'', ''mathrm'',
            ''mathbf'', ''hat'', ''bar'', ''vec'', ''dot'', ''tilde'']
       \<union> set [''int'', ''sum'', ''prod'', ''partial'', ''infty'', ''pm'', ''mp'', ''times'',
            ''div'', ''cdot'', ''circ'', ''sim'', ''approx'', ''equiv'', ''leq'', ''geq'',
            ''neq'', ''rightarrow'', ''leftarrow'', ''leftrightarrow'', ''mid'',
            ''Rightarrow'', ''Leftarrow'', ''to'', ''mapsto'']
       \<union> set [''lim'', ''max'', ''min'', ''log'', ''exp'', ''sin'', ''cos'', ''tan'']
       \<union> set [''alpha'', ''beta'', ''gamma'', ''delta'', ''epsilon'', ''zeta'', ''eta'',
            ''theta'', ''iota'', ''kappa'', ''lambda'', ''mu'', ''nu'', ''xi'', ''pi'', ''rho'',
            ''sigma'', ''tau'', ''upsilon'', ''phi'', ''chi'', ''psi'', ''omega'']
       \<union> set [''Alpha'', ''Beta'', ''Gamma'', ''Delta'', ''Epsilon'', ''Zeta'', ''Eta'',
            ''Theta'', ''Lambda'', ''Mu'', ''Nu'', ''Xi'', ''Pi'', ''Rho'', ''Sigma'', ''Tau'',
            ''Upsilon'', ''Phi'', ''Chi'', ''Psi'', ''Omega'']
   \<and> is_math (bsl # ''alphabet'')
   \<and> \<not> is_math (bsl # ''ALPHA'')"
proof -
  have "is_math text \<longleftrightarrow>
      (\<exists>pre post. \<exists>name \<in> set LATEX_COMMANDS. text = pre @ bsl # name @ post)"
    unfolding is_math_iff_suffix command_at_iff by blast
  moreover have "is_math (bsl # ''alphabet'')"
    by (simp add: command_at_def LATEX_COMMANDS_def)
  moreover have "\<not> is_math (bsl # ''ALPHA'')"
    by (simp add: command_at_def LATEX_COMMANDS_def)
  ultimately show ?thesis using vocabulary_groups by blast
qed

theorem is_math_iff_contains_command_witness:
  "is_math (''see '' @ bsl # ''pi r'') \<and> \<not> is_math ''see pi r''"
proof -
  have "''pi'' \<in> set LATEX_COMMANDS \<and> ''see '' @ bsl # ''pi r'' = ''see '' @ bsl # ''pi'' @ '' r''"
    by (simp add: LATEX_COMMANDS_def)
  then have "\<exists>pre post. \<exists>name \<in> set LATEX_COMMANDS.
      ''see '' @ bsl # ''pi r'' = pre @ bsl # name @ post"
    by blast
  then have "is_math (''see '' @ bsl # ''pi r'')"
    using is_math_iff_contains_command [of "''see '' @ bsl # ''pi r''"] by blast
  moreover have "\<not> is_math ''see pi r''"
  proof -
    have "\<not> (\<exists>pre post. \<exists>name \<in> set LATEX_COMMANDS. ''see pi r'' = pre @ bsl # name @ post)"
    proof
      assume "\<exists>pre post. \<exists>name \<in> set LATEX_COMMANDS. ''see pi r'' = pre @ bsl # name @ post"
      then obtain pre post name where "''see pi r'' = pre @ bsl # name @ post" by blast
      then have "bsl \<in> set ''see pi r''"
        by (metis in_set_conv_decomp)
      then show False by simp
    qed
    then show ?thesis
      using is_math_iff_contains_command [of "''see pi r''"] by blast
  qed
  ultimately show ?thesis by blast
qed

text \<open>
  Four Greek letter names are not in the vocabulary: a text made of a backslash and one
  of them is not classified as math.
\<close>

theorem greek_names_not_recognized:
  "\<not> is_math (bsl # ''Kappa'') \<and> \<not> is_math (bsl # ''Iota'')
   \<and> \<not> is_math (bsl # ''omicron'') \<and> \<not> is_math (bsl # ''Omicron'')"
  by (simp add: command_at_def LATEX_COMMANDS_def)

section \<open>Properties of the normalizer\<close>

lemma takeWhile_stop: "\<not> P y \<Longrightarrow> takeWhile P (xs @ y # ys) = takeWhile P xs"
  by (induction xs) auto

lemma dropWhile_stop: "\<not> P y \<Longrightarrow> dropWhile P (xs @ y # ys) = dropWhile P xs @ y # ys"
  by (induction xs) auto

lemma takeWhile_all: "list_all P xs \<Longrightarrow> ys = [] \<or> \<not> P (hd ys) \<Longrightarrow> takeWhile P (xs @ ys) = xs"
  by (induction xs) (cases ys; auto)+

lemma dropWhile_all: "list_all P xs \<Longrightarrow> ys = [] \<or> \<not> P (hd ys) \<Longrightarrow> dropWhile P (xs @ ys) = ys"
  by (induction xs) (cases ys; auto)+

lemma comma_classes: "\<not> is_space (CHR '','')" "\<not> is_word (CHR '','')"
  "\<not> is_space (CHR ''d'')" "is_word (CHR ''d'')"
  by (simp_all add: is_space_def is_word_def)

lemma match_thin_append_comma:
  "match_thin (c # cs @ CHR '','' # r) =
     map_option (\<lambda>(ws, tok, rest). (ws, tok, rest @ CHR '','' # r)) (match_thin (c # cs))"
proof (cases "dropWhile is_space cs")
  case Nil
  show ?thesis
    by (simp add: match_thin_def dropWhile_stop takeWhile_stop comma_classes Nil
        del: dropWhile_eq_Nil_conv)
next
  case (Cons d r3)
  show ?thesis
    by (simp add: match_thin_def dropWhile_stop takeWhile_stop comma_classes Cons)
qed

lemma sub_thin_append_comma:
  "sub_thin (pre @ CHR '','' # r) = sub_thin pre @ sub_thin (CHR '','' # r)"
proof (induction pre rule: sub_thin.induct)
  case 1
  then show ?case by simp
next
  case (2 c cs)
  show ?case
  proof (cases "match_thin (c # cs)")
    case None
    then have "match_thin (c # cs @ CHR '','' # r) = None"
      by (simp add: match_thin_append_comma)
    then show ?thesis using None 2 by simp
  next
    case (Some m)
    obtain ws tok rest where m: "m = (ws, tok, rest)" by (cases m)
    have "match_thin (c # cs @ CHR '','' # r) = Some (ws, tok, rest @ CHR '','' # r)"
      using Some m by (simp add: match_thin_append_comma)
    then show ?thesis using Some m 2 by simp
  qed
qed

lemma match_thin_here:
  assumes "list_all is_space ws" "w \<noteq> []" "list_all is_word w" "post = [] \<or> \<not> is_word (hd post)"
  shows "match_thin (CHR '','' # ws @ CHR ''d'' # w @ post) = Some (ws, CHR ''d'' # w, post)"
proof -
  have 1: "dropWhile is_space (ws @ CHR ''d'' # w @ post) = CHR ''d'' # w @ post"
    using assms(1) by (simp add: dropWhile_all comma_classes)
  have 2: "takeWhile is_space (ws @ CHR ''d'' # w @ post) = ws"
    using assms(1) by (simp add: takeWhile_all comma_classes)
  have 3: "takeWhile is_word (w @ post) = w" "dropWhile is_word (w @ post) = post"
    using assms(3,4) by (simp_all add: takeWhile_all dropWhile_all)
  show ?thesis
    using assms(2) by (simp add: match_thin_def 1 2 3)
qed

text \<open>
  C3. Step 2 of the normalizer: where the text has a comma, then whitespace (possibly
  none), then a token made of the letter d and at least one word character, the
  substitution writes a backslash before the comma (the thin-space control sequence
  \<^verbatim>\<open>\,\<close>) and keeps the comma, the whitespace and the token as they are; the text
  before and the text after are rewritten by the same rule.
\<close>

theorem sub_thin_inserts_thin_space:
  assumes "list_all is_space ws" "w \<noteq> []" "list_all is_word w" "post = [] \<or> \<not> is_word (hd post)"
  shows "sub_thin (pre @ '','' @ ws @ CHR ''d'' # w @ post)
         = sub_thin pre @ [bsl, CHR '',''] @ ws @ CHR ''d'' # w @ sub_thin post"
  using match_thin_here [OF assms] by (simp add: sub_thin_append_comma)

theorem sub_thin_inserts_thin_space_witness:
  "sub_thin ''f(t), dt + 1'' = ''f(t)'' @ [bsl, CHR '',''] @ '' dt + 1''"
  using sub_thin_inserts_thin_space [of "'' ''" "''t''" "'' + 1''" "''f(t)''"]
  by (simp add: is_space_def is_word_def match_thin_def)

lemma letter_classes:
  "is_ascii_letter l \<Longrightarrow> l \<noteq> bsl \<and> l \<noteq> CHR ''#'' \<and> \<not> is_space l"
  by (auto simp: is_ascii_letter_def is_space_def Let_def)

lemma space_classes: "is_space c \<Longrightarrow> c \<noteq> bsl \<and> c \<noteq> CHR ''#''"
  by (auto simp: is_space_def Let_def)

lemma style_names_chars:
  "n \<in> set STYLE_NAMES \<Longrightarrow> bsl \<notin> set n \<and> CHR ''#'' \<notin> set n \<and> n \<noteq> []"
  by (auto simp: STYLE_NAMES_def)

lemma style_names_prefix:
  "n \<in> set STYLE_NAMES \<Longrightarrow> m \<in> set STYLE_NAMES \<Longrightarrow> starts_with (n @ x) m \<Longrightarrow> m = n"
  by (auto simp: STYLE_NAMES_def)

lemma starts_with_append_self: "starts_with (n @ x) n"
  by (simp add: starts_with_iff)

lemma style_tail_other:
  "n \<in> set STYLE_NAMES \<Longrightarrow> m \<in> set STYLE_NAMES \<Longrightarrow> m \<noteq> n \<Longrightarrow> style_tail (n @ x) m = None"
  using style_names_prefix by (auto simp: style_tail_def)

lemma first_some_None: "(\<And>m. m \<in> set xs \<Longrightarrow> f m = None) \<Longrightarrow> first_some f xs = None"
  by (induction xs) auto

lemma first_some_unique:
  "n \<in> set xs \<Longrightarrow> (\<And>m. m \<in> set xs \<Longrightarrow> m \<noteq> n \<Longrightarrow> f m = None) \<Longrightarrow> first_some f xs = f n"
proof (induction xs)
  case Nil
  then show ?case by simp
next
  case (Cons x xs)
  show ?case
  proof (cases "x = n")
    case True
    show ?thesis
    proof (cases "f n")
      case None
      have "first_some f xs = None"
      proof (rule first_some_None)
        fix m assume "m \<in> set xs"
        then show "f m = None"
          using Cons.prems(2) [of m] None by (cases "m = n") auto
      qed
      then show ?thesis using True None by simp
    next
      case (Some y)
      then show ?thesis using True by simp
    qed
  next
    case False
    then have "f x = None" "n \<in> set xs" using Cons.prems by auto
    then show ?thesis using Cons by simp
  qed
qed

lemma match_style_at_name:
  "n \<in> set STYLE_NAMES \<Longrightarrow> match_style (bsl # n @ x) = style_tail (n @ x) n"
  unfolding match_style_def
  by (simp add: first_some_unique [of n STYLE_NAMES] style_tail_other)

lemma match_style_here:
  assumes "n \<in> set STYLE_NAMES" "ws \<noteq> []" "list_all is_space ws" "is_ascii_letter l"
  shows "match_style (bsl # n @ ws @ l # r) = Some (n, l, r)"
proof -
  have 1: "takeWhile is_space (ws @ l # r) = ws" "dropWhile is_space (ws @ l # r) = l # r"
    using assms(3,4) letter_classes [of l] by (simp_all add: takeWhile_all dropWhile_all)
  show ?thesis
    using assms(2,4)
    by (simp add: match_style_at_name [OF assms(1)] style_tail_def starts_with_append_self 1)
qed

lemma match_style_brace:
  "n \<in> set STYLE_NAMES \<Longrightarrow> match_style (bsl # n @ CHR ''{'' # r) = None"
  by (simp add: match_style_at_name style_tail_def starts_with_append_self is_space_def)

lemma match_style_shape:
  assumes "match_style s = Some (n, l, rest)"
  shows "\<exists>ws. s = bsl # n @ ws @ l # rest \<and> n \<in> set STYLE_NAMES \<and> ws \<noteq> []
           \<and> list_all is_space ws \<and> is_ascii_letter l"
proof -
  obtain r m where s: "s = bsl # r" and m: "m \<in> set STYLE_NAMES"
    and t: "style_tail r m = Some (n, l, rest)"
    using assms
    by (auto simp: match_style_def split: list.splits if_splits dest!: first_some_SomeD)
  have sw: "starts_with r m" using t by (auto simp: style_tail_def split: if_splits)
  then obtain r2 where r: "r = m @ r2" by (auto simp: starts_with_iff)
  have d: "dropWhile is_space r2 = l # rest" and w: "takeWhile is_space r2 \<noteq> []"
    and l: "is_ascii_letter l" and n: "n = m"
    using t sw r by (auto simp: style_tail_def Let_def split: if_splits list.splits)
  have "r2 = takeWhile is_space r2 @ l # rest"
    using d takeWhile_dropWhile_id [of is_space r2] by simp
  moreover have "list_all is_space (takeWhile is_space r2)"
    by (simp add: list_all_iff) (meson set_takeWhileD)
  ultimately show ?thesis using s r m w l n by blast
qed

lemma match_style_not_bsl: "c \<noteq> bsl \<Longrightarrow> match_style (c # cs) = None"
  by (simp add: match_style_def)

lemma sub_style_plain_prefix: "bsl \<notin> set p \<Longrightarrow> sub_style (p @ r) = p @ sub_style r"
  by (induction p) (auto simp: match_style_not_bsl)

lemma sub_style_reflect:
  "sub_style cs = p @ r' \<Longrightarrow> bsl \<notin> set p \<Longrightarrow> \<exists>r''. cs = p @ r''"
proof (induction p arbitrary: cs r')
  case Nil
  then show ?case by simp
next
  case (Cons x p)
  then obtain c cs' where cs: "cs = c # cs'" by (cases cs) auto
  have x: "x \<noteq> bsl" using Cons.prems(2) by auto
  have none: "match_style (c # cs') = None"
  proof (rule ccontr)
    assume "match_style (c # cs') \<noteq> None"
    then obtain n l rest where "match_style (c # cs') = Some (n, l, rest)" by auto
    then have "sub_style cs = bsl # n @ ''{'' @ [l] @ ''}'' @ sub_style rest"
      by (simp add: cs)
    then show False using Cons.prems(1) x by simp
  qed
  then have "c = x" "sub_style cs' = p @ r'"
    using Cons.prems(1) by (simp_all add: cs)
  then obtain r'' where "cs' = p @ r''" using Cons.IH Cons.prems(2) by auto
  then show ?case using cs \<open>c = x\<close> by simp
qed

lemma style_match_chars:
  assumes "n \<in> set STYLE_NAMES" "list_all is_space ws" "is_ascii_letter l"
  shows "bsl \<notin> set (n @ ws @ [l]) \<and> CHR ''#'' \<notin> set (n @ ws @ [l])"
  using style_names_chars [OF assms(1)] letter_classes [OF assms(3)] assms(2) space_classes
  by (auto simp: list_all_iff)

lemma match_style_after_sub:
  assumes "match_style (c # cs) = None"
  shows "match_style (c # sub_style cs) = None"
proof (rule ccontr)
  assume "match_style (c # sub_style cs) \<noteq> None"
  then obtain n l rest where m: "match_style (c # sub_style cs) = Some (n, l, rest)" by auto
  then obtain ws where w: "c # sub_style cs = bsl # n @ ws @ l # rest" "n \<in> set STYLE_NAMES"
      "ws \<noteq> []" "list_all is_space ws" "is_ascii_letter l"
    using match_style_shape by blast
  then have "sub_style cs = (n @ ws @ [l]) @ rest" by simp
  moreover have "bsl \<notin> set (n @ ws @ [l])"
    using style_match_chars [OF w(2,4,5)] by blast
  ultimately obtain r'' where "cs = (n @ ws @ [l]) @ r''"
    using sub_style_reflect by blast
  then have "match_style (c # cs) = Some (n, l, r'')"
    using match_style_here [OF w(2,3,4,5)] w(1) by simp
  then show False using assms by simp
qed

lemma sub_style_idem: "sub_style (sub_style t) = sub_style t"
proof (induction t rule: sub_style.induct)
  case 1
  then show ?case by simp
next
  case (2 c cs)
  show ?case
  proof (cases "match_style (c # cs)")
    case None
    then show ?thesis using 2 match_style_after_sub [OF None] by simp
  next
    case (Some m)
    obtain n l rest where m: "m = (n, l, rest)" by (cases m)
    obtain ws where w: "n \<in> set STYLE_NAMES" "is_ascii_letter l"
      using match_style_shape Some m by blast
    have ih: "sub_style (sub_style rest) = sub_style rest"
      using 2(2) Some m by simp
    have p: "bsl \<notin> set (n @ ''{'' @ [l] @ ''}'')"
      using style_names_chars [OF w(1)] letter_classes [OF w(2)] by auto
    have "sub_style (bsl # n @ CHR ''{'' # (l # CHR ''}'' # sub_style rest))
            = bsl # sub_style (n @ CHR ''{'' # (l # CHR ''}'' # sub_style rest))"
      by (simp add: match_style_brace [OF w(1)])
    also have "\<dots> = bsl # sub_style ((n @ ''{'' @ [l] @ ''}'') @ sub_style rest)"
      by simp
    also have "\<dots> = bsl # (n @ ''{'' @ [l] @ ''}'') @ sub_style (sub_style rest)"
      by (simp only: sub_style_plain_prefix [OF p])
    finally show ?thesis using Some m ih by simp
  qed
qed

lemma hash_loop_idem: "hash_loop b (hash_loop b t) = hash_loop b t"
  by (induction t arbitrary: b) auto

lemma hash_plain_prefix:
  "CHR ''#'' \<notin> set p \<Longrightarrow> p \<noteq> [] \<Longrightarrow> hash_loop b (p @ r) = p @ hash_loop (last p = bsl) r"
proof (induction p arbitrary: b)
  case Nil
  then show ?case by simp
next
  case (Cons x p)
  then show ?case by (cases p) auto
qed

lemma hash_reflect:
  "hash_loop f cs = p @ r' \<Longrightarrow> bsl \<notin> set p \<Longrightarrow> \<exists>r''. cs = p @ r''"
proof (induction p arbitrary: cs r' f)
  case Nil
  then show ?case by simp
next
  case (Cons x p)
  then obtain c cs' where cs: "cs = c # cs'" by (cases cs) auto
  have x: "x \<noteq> bsl" using Cons.prems(2) by auto
  have "\<not> (c = CHR ''#'' \<and> \<not> f)"
  proof
    assume "c = CHR ''#'' \<and> \<not> f"
    then have "hash_loop f cs = bsl # c # hash_loop (c = bsl) cs'"
      by (simp add: cs)
    then show False using Cons.prems(1) x by simp
  qed
  then have "c = x" "hash_loop (c = bsl) cs' = p @ r'"
    using Cons.prems(1) by (auto simp: cs)
  moreover have "bsl \<notin> set p" using Cons.prems(2) by simp
  ultimately obtain r'' where "cs' = p @ r''" using Cons.IH by blast
  then show ?case using cs \<open>c = x\<close> by simp
qed

lemma match_style_after_hash:
  assumes "match_style (c # cs) = None"
  shows "match_style (c # hash_loop f cs) = None"
proof (rule ccontr)
  assume "match_style (c # hash_loop f cs) \<noteq> None"
  then obtain n l rest where m: "match_style (c # hash_loop f cs) = Some (n, l, rest)" by auto
  then obtain ws where w: "c # hash_loop f cs = bsl # n @ ws @ l # rest" "n \<in> set STYLE_NAMES"
      "ws \<noteq> []" "list_all is_space ws" "is_ascii_letter l"
    using match_style_shape by blast
  then have "hash_loop f cs = (n @ ws @ [l]) @ rest" by simp
  moreover have "bsl \<notin> set (n @ ws @ [l])"
    using style_match_chars [OF w(2,4,5)] by blast
  ultimately obtain r'' where "cs = (n @ ws @ [l]) @ r''"
    using hash_reflect by blast
  then have "match_style (c # cs) = Some (n, l, r'')"
    using match_style_here [OF w(2,3,4,5)] w(1) by simp
  then show False using assms by simp
qed

lemma match_style_hash: "match_style (bsl # CHR ''#'' # r) = None"
  by (simp add: match_style_def STYLE_NAMES_def style_tail_def)

lemma sub_style_hash_commute: "sub_style (hash_loop b t) = hash_loop b (sub_style t)"
proof (induction t arbitrary: b rule: sub_style.induct)
  case 1
  then show ?case by simp
next
  case (2 c cs)
  show ?case
  proof (cases "match_style (c # cs)")
    case None
    have ih: "sub_style (hash_loop (c = bsl) cs) = hash_loop (c = bsl) (sub_style cs)"
      using 2(1) None by simp
    show ?thesis
    proof (cases "c = CHR ''#'' \<and> \<not> b")
      case True
      then show ?thesis
        using None ih by (simp add: match_style_hash match_style_not_bsl)
    next
      case False
      then show ?thesis
        using None ih match_style_after_hash [OF None] by auto
    qed
  next
    case (Some m)
    obtain n l rest where m: "m = (n, l, rest)" by (cases m)
    obtain ws where w: "c # cs = bsl # n @ ws @ l # rest" "n \<in> set STYLE_NAMES"
        "ws \<noteq> []" "list_all is_space ws" "is_ascii_letter l"
      using match_style_shape Some m by blast
    have ih: "sub_style (hash_loop False rest) = hash_loop False (sub_style rest)"
      using 2(2) Some m by simp
    have nm: "bsl \<notin> set n" "CHR ''#'' \<notin> set n" "l \<noteq> bsl" "l \<noteq> CHR ''#''"
      using style_names_chars [OF w(2)] letter_classes [OF w(5)] by auto
    have ws: "CHR ''#'' \<notin> set ws"
      using w(4) space_classes by (auto simp: list_all_iff)
    have "hash_loop b (c # cs) = hash_loop b ((bsl # n @ ws @ [l]) @ rest)"
      using w(1) by simp
    also have "\<dots> = (bsl # n @ ws @ [l]) @ hash_loop False rest"
      using nm ws by (subst hash_plain_prefix) auto
    finally have l: "hash_loop b (c # cs) = bsl # n @ ws @ l # hash_loop False rest"
      by simp
    have "hash_loop b ((bsl # n @ ''{'' @ [l] @ ''}'') @ sub_style rest)
            = (bsl # n @ ''{'' @ [l] @ ''}'') @ hash_loop False (sub_style rest)"
      using nm by (subst hash_plain_prefix) auto
    then have r: "hash_loop b (sub_style (c # cs))
            = bsl # n @ ''{'' @ [l] @ ''}'' @ hash_loop False (sub_style rest)"
      using Some m by simp
    have "sub_style (bsl # n @ ws @ l # hash_loop False rest)
            = bsl # n @ ''{'' @ [l] @ ''}'' @ sub_style (hash_loop False rest)"
      using match_style_here [OF w(2,3,4,5)] by simp
    then show ?thesis unfolding l r ih by simp
  qed
qed

lemma style_hash_idem:
  "hash_loop False (sub_style (hash_loop False (sub_style t))) = hash_loop False (sub_style t)"
  by (simp add: sub_style_hash_commute hash_loop_idem sub_style_idem)

lemma match_thin_not_comma: "c \<noteq> CHR '','' \<Longrightarrow> match_thin (c # cs) = None"
  by (simp add: match_thin_def)

lemma match_rel_not_semicolon: "c \<noteq> CHR '';'' \<Longrightarrow> match_rel (c # cs) = None"
  by (simp add: match_rel_def)

lemma word_classes: "is_word c \<Longrightarrow> c \<noteq> bsl \<and> c \<noteq> CHR '','' \<and> \<not> is_space c"
  by (auto simp: is_word_def is_space_def Let_def)

lemma match_thin_shape:
  assumes "match_thin s = Some (ws, tok, rest)"
  shows "\<exists>w. s = CHR '','' # ws @ CHR ''d'' # w @ rest \<and> tok = CHR ''d'' # w \<and> w \<noteq> []
           \<and> list_all is_space ws \<and> list_all is_word w"
proof -
  obtain r d r3 where s: "s = CHR '','' # r" and d: "dropWhile is_space r = d # r3"
    and e: "d = CHR ''d''" "takeWhile is_word r3 \<noteq> []" "ws = takeWhile is_space r"
      "tok = d # takeWhile is_word r3" "rest = dropWhile is_word r3"
    using assms by (auto simp: match_thin_def split: list.splits if_splits)
  have "r = ws @ CHR ''d'' # r3"
    using d e(1,3) takeWhile_dropWhile_id [of is_space r] by simp
  moreover have "r3 = takeWhile is_word r3 @ rest"
    using e(5) by simp
  moreover have "list_all is_space ws" "list_all is_word (takeWhile is_word r3)"
    using e(3) by (auto simp: list_all_iff dest: set_takeWhileD)
  ultimately show ?thesis using s e by (metis append_Cons append_assoc)
qed

lemma match_thin_some:
  assumes "list_all is_space ws" "w \<noteq> []" "list_all is_word w"
  shows "match_thin (CHR '','' # ws @ CHR ''d'' # w @ r) \<noteq> None"
proof -
  have 1: "dropWhile is_space (ws @ CHR ''d'' # w @ r) = CHR ''d'' # w @ r"
    using assms(1) by (simp add: dropWhile_all comma_classes)
  obtain x w' where w: "w = x # w'" "is_word x"
    using assms(2,3) by (cases w) auto
  then have "takeWhile is_word (w @ r) \<noteq> []" by simp
  then show ?thesis by (simp add: match_thin_def 1)
qed

lemma sub_thin_unchanged_Cons:
  assumes "sub_thin (c # cs) = c # cs"
  shows "match_thin (c # cs) = None \<and> sub_thin cs = cs"
proof (cases "match_thin (c # cs)")
  case None
  then show ?thesis using assms by simp
next
  case (Some m)
  obtain ws tok rest where m: "m = (ws, tok, rest)" by (cases m)
  then have "c = CHR '',''" using Some match_thin_shape by fastforce
  then show ?thesis using assms Some m by simp
qed

lemma sub_thin_unchanged_suffix: "sub_thin (p @ r) = p @ r \<Longrightarrow> sub_thin r = r"
proof (induction p)
  case Nil
  then show ?case by simp
next
  case (Cons a p)
  then have "sub_thin (a # (p @ r)) = a # (p @ r)" by (simp only: append_Cons)
  then have "sub_thin (p @ r) = p @ r" using sub_thin_unchanged_Cons by blast
  then show ?case by (rule Cons.IH)
qed

lemma sub_thin_plain_prefix: "CHR '','' \<notin> set p \<Longrightarrow> sub_thin (p @ r) = p @ sub_thin r"
  by (induction p) (auto simp: match_thin_not_comma)

lemma thin_prefix_chars:
  assumes "list_all is_space ws" "list_all is_word w"
  shows "bsl \<notin> set (ws @ CHR ''d'' # w)"
  using assms space_classes word_classes by (auto simp: list_all_iff)

lemma match_thin_after_style:
  assumes "match_thin (c # cs) = None"
  shows "match_thin (c # sub_style cs) = None"
proof (rule ccontr)
  assume "match_thin (c # sub_style cs) \<noteq> None"
  then obtain ws tok rest where "match_thin (c # sub_style cs) = Some (ws, tok, rest)" by auto
  then obtain w where w: "c # sub_style cs = CHR '','' # ws @ CHR ''d'' # w @ rest" "w \<noteq> []"
      "list_all is_space ws" "list_all is_word w"
    using match_thin_shape by blast
  then have "sub_style cs = (ws @ CHR ''d'' # w) @ rest" by simp
  then obtain r'' where "cs = (ws @ CHR ''d'' # w) @ r''"
    using sub_style_reflect thin_prefix_chars [OF w(3,4)] by blast
  then have "c # cs = CHR '','' # ws @ CHR ''d'' # w @ r''" using w(1) by simp
  then show False using assms match_thin_some [OF w(3,2,4)] by simp
qed

lemma match_thin_after_hash:
  assumes "match_thin (c # cs) = None"
  shows "match_thin (c # hash_loop f cs) = None"
proof (rule ccontr)
  assume "match_thin (c # hash_loop f cs) \<noteq> None"
  then obtain ws tok rest where "match_thin (c # hash_loop f cs) = Some (ws, tok, rest)" by auto
  then obtain w where w: "c # hash_loop f cs = CHR '','' # ws @ CHR ''d'' # w @ rest" "w \<noteq> []"
      "list_all is_space ws" "list_all is_word w"
    using match_thin_shape by blast
  then have "hash_loop f cs = (ws @ CHR ''d'' # w) @ rest" by simp
  then obtain r'' where "cs = (ws @ CHR ''d'' # w) @ r''"
    using hash_reflect thin_prefix_chars [OF w(3,4)] by blast
  then have "c # cs = CHR '','' # ws @ CHR ''d'' # w @ r''" using w(1) by simp
  then show False using assms match_thin_some [OF w(3,2,4)] by simp
qed

lemma sub_thin_after_style: "sub_thin t = t \<Longrightarrow> sub_thin (sub_style t) = sub_style t"
proof (induction t rule: sub_style.induct)
  case 1
  then show ?case by simp
next
  case (2 c cs)
  have u: "match_thin (c # cs) = None" "sub_thin cs = cs"
    using sub_thin_unchanged_Cons [OF "2.prems"] by auto
  show ?case
  proof (cases "match_style (c # cs)")
    case None
    then have "sub_thin (sub_style cs) = sub_style cs" using 2(1) u(2) by simp
    then show ?thesis using None match_thin_after_style [OF u(1)] by simp
  next
    case (Some m)
    obtain n l rest where m: "m = (n, l, rest)" by (cases m)
    obtain ws where w: "c # cs = bsl # n @ ws @ l # rest" "n \<in> set STYLE_NAMES"
        "list_all is_space ws" "is_ascii_letter l"
      using match_style_shape Some m by blast
    have "sub_thin ((bsl # n @ ws @ [l]) @ rest) = (bsl # n @ ws @ [l]) @ rest"
      using "2.prems" w(1) by simp
    then have "sub_thin rest = rest" by (rule sub_thin_unchanged_suffix)
    then have ih: "sub_thin (sub_style rest) = sub_style rest"
      using 2(2) Some m by simp
    have "CHR '','' \<notin> set n" using w(2) by (auto simp: STYLE_NAMES_def)
    moreover have "l \<noteq> CHR '',''" using w(4) by (auto simp: is_ascii_letter_def Let_def)
    ultimately have p: "CHR '','' \<notin> set (bsl # n @ ''{'' @ [l] @ ''}'')" by auto
    have "sub_thin ((bsl # n @ ''{'' @ [l] @ ''}'') @ sub_style rest)
            = (bsl # n @ ''{'' @ [l] @ ''}'') @ sub_thin (sub_style rest)"
      by (rule sub_thin_plain_prefix [OF p])
    then show ?thesis using Some m ih by simp
  qed
qed

lemma sub_thin_after_hash: "sub_thin u = u \<Longrightarrow> sub_thin (hash_loop b u) = hash_loop b u"
proof (induction u arbitrary: b)
  case Nil
  then show ?case by simp
next
  case (Cons c cs)
  have u: "match_thin (c # cs) = None" "sub_thin cs = cs"
    using sub_thin_unchanged_Cons [OF Cons.prems] by auto
  have ih: "sub_thin (hash_loop (c = bsl) cs) = hash_loop (c = bsl) cs"
    using Cons.IH u(2) by simp
  show ?case
  proof (cases "c = CHR ''#'' \<and> \<not> b")
    case True
    then show ?thesis using ih by (simp add: match_thin_not_comma)
  next
    case False
    then show ?thesis using ih match_thin_after_hash [OF u(1)] by auto
  qed
qed

lemma rel_names_chars:
  "n \<in> set REL_NAMES \<Longrightarrow> bsl \<notin> set n \<and> CHR ''#'' \<notin> set n \<and> CHR '';'' \<notin> set n"
  by (auto simp: REL_NAMES_def)

lemma semicolon_classes: "\<not> is_space (CHR '';'')" "\<not> is_space bsl"
  by (simp_all add: is_space_def)

lemma match_rel_shape:
  assumes "match_rel s = Some (cmd, rest)"
  shows "\<exists>ws1 n ws2. s = CHR '';'' # ws1 @ bsl # n @ ws2 @ CHR '';'' # rest \<and> cmd = bsl # n
           \<and> n \<in> set REL_NAMES \<and> list_all is_space ws1 \<and> list_all is_space ws2"
proof -
  obtain r n where s: "s = CHR '';'' # r" and n: "n \<in> set REL_NAMES"
    and t: "rel_tail (dropWhile is_space r) n = Some (cmd, rest)"
    using assms
    by (auto simp: match_rel_def split: list.splits if_splits dest!: first_some_SomeD)
  let ?r2 = "dropWhile is_space r"
  have sw: "starts_with ?r2 (bsl # n)" using t by (auto simp: rel_tail_def split: if_splits)
  then obtain r3 where r2: "?r2 = bsl # n @ r3" by (auto simp: starts_with_iff)
  have d: "dropWhile is_space r3 = CHR '';'' # rest" and c: "cmd = bsl # n"
    using t sw r2 by (auto simp: rel_tail_def split: if_splits list.splits)
  have "r = takeWhile is_space r @ bsl # n @ r3"
    using r2 takeWhile_dropWhile_id [of is_space r] by simp
  moreover have "r3 = takeWhile is_space r3 @ CHR '';'' # rest"
    using d takeWhile_dropWhile_id [of is_space r3] by simp
  moreover have "list_all is_space (takeWhile is_space r)" "list_all is_space (takeWhile is_space r3)"
    by (auto simp: list_all_iff dest: set_takeWhileD)
  ultimately show ?thesis using s c n by metis
qed

lemma first_some_not_None: "x \<in> set xs \<Longrightarrow> f x \<noteq> None \<Longrightarrow> first_some f xs \<noteq> None"
  by (induction xs) (auto split: option.splits)

lemma match_rel_some:
  assumes "n \<in> set REL_NAMES" "list_all is_space ws1" "list_all is_space ws2"
  shows "match_rel (CHR '';'' # ws1 @ bsl # n @ ws2 @ CHR '';'' # r) \<noteq> None"
proof -
  have 1: "dropWhile is_space (ws1 @ bsl # n @ ws2 @ CHR '';'' # r) = bsl # n @ ws2 @ CHR '';'' # r"
    using assms(2) by (simp add: dropWhile_all semicolon_classes)
  have 2: "dropWhile is_space (ws2 @ CHR '';'' # r) = CHR '';'' # r"
    using assms(3) by (simp add: dropWhile_all semicolon_classes)
  have "rel_tail (bsl # n @ ws2 @ CHR '';'' # r) n \<noteq> None"
    by (simp add: rel_tail_def starts_with_append_self 2)
  then have "first_some (rel_tail (bsl # n @ ws2 @ CHR '';'' # r)) REL_NAMES \<noteq> None"
    using assms(1) by (rule first_some_not_None [rotated])
  then show ?thesis by (simp add: match_rel_def 1)
qed

lemma sub_rel_unchanged_Cons:
  assumes "sub_rel (c # cs) = c # cs"
  shows "match_rel (c # cs) = None \<and> sub_rel cs = cs"
proof (cases "match_rel (c # cs)")
  case None
  then show ?thesis using assms by simp
next
  case (Some m)
  obtain cmd rest where m: "m = (cmd, rest)" by (cases m)
  then have "c = CHR '';''" using Some match_rel_shape by fastforce
  then show ?thesis using assms Some m by simp
qed

lemma sub_rel_unchanged_suffix: "sub_rel (p @ r) = p @ r \<Longrightarrow> sub_rel r = r"
proof (induction p)
  case Nil
  then show ?case by simp
next
  case (Cons a p)
  then have "sub_rel (a # (p @ r)) = a # (p @ r)" by (simp only: append_Cons)
  then have "sub_rel (p @ r) = p @ r" using sub_rel_unchanged_Cons by blast
  then show ?case by (rule Cons.IH)
qed

lemma sub_rel_plain_prefix: "CHR '';'' \<notin> set p \<Longrightarrow> sub_rel (p @ r) = p @ sub_rel r"
  by (induction p) (auto simp: match_rel_not_semicolon)

lemma sub_style_reflect_rest:
  "sub_style cs = p @ r' \<Longrightarrow> bsl \<notin> set p \<Longrightarrow> \<exists>r''. cs = p @ r'' \<and> sub_style r'' = r'"
proof (induction p arbitrary: cs r')
  case Nil
  then show ?case by simp
next
  case (Cons x p)
  then obtain c cs' where cs: "cs = c # cs'" by (cases cs) auto
  have x: "x \<noteq> bsl" using Cons.prems(2) by auto
  have none: "match_style (c # cs') = None"
  proof (rule ccontr)
    assume "match_style (c # cs') \<noteq> None"
    then obtain n l rest where "match_style (c # cs') = Some (n, l, rest)" by auto
    then have "sub_style cs = bsl # n @ ''{'' @ [l] @ ''}'' @ sub_style rest"
      by (simp add: cs)
    then show False using Cons.prems(1) x by simp
  qed
  then have "c = x" "sub_style cs' = p @ r'"
    using Cons.prems(1) by (simp_all add: cs)
  moreover have "bsl \<notin> set p" using Cons.prems(2) by simp
  ultimately obtain r'' where "cs' = p @ r''" "sub_style r'' = r'" using Cons.IH by blast
  then show ?case using cs \<open>c = x\<close> by simp
qed

lemma style_rel_clash:
  "m \<in> set STYLE_NAMES \<Longrightarrow> n \<in> set REL_NAMES \<Longrightarrow> m @ x \<noteq> n @ y"
  by (auto simp: STYLE_NAMES_def REL_NAMES_def)

lemma rel_tail_chars:
  assumes "n \<in> set REL_NAMES" "list_all is_space ws2"
  shows "bsl \<notin> set (n @ ws2 @ '';'')" "CHR ''#'' \<notin> set (n @ ws2 @ '';'')"
  using rel_names_chars [OF assms(1)] assms(2) space_classes by (auto simp: list_all_iff)

lemma match_rel_after_style:
  assumes "match_rel (c # cs) = None"
  shows "match_rel (c # sub_style cs) = None"
proof (rule ccontr)
  assume "match_rel (c # sub_style cs) \<noteq> None"
  then obtain cmd rest where "match_rel (c # sub_style cs) = Some (cmd, rest)" by auto
  then obtain ws1 n ws2 where w: "c # sub_style cs = CHR '';'' # ws1 @ bsl # n @ ws2 @ CHR '';'' # rest"
      "n \<in> set REL_NAMES" "list_all is_space ws1" "list_all is_space ws2"
    using match_rel_shape by blast
  have "bsl \<notin> set ws1" using w(3) space_classes by (auto simp: list_all_iff)
  moreover have "sub_style cs = ws1 @ (bsl # n @ ws2 @ CHR '';'' # rest)" using w(1) by simp
  ultimately obtain cs1 where cs1: "cs = ws1 @ cs1"
      "sub_style cs1 = bsl # n @ ws2 @ CHR '';'' # rest"
    using sub_style_reflect_rest by blast
  then obtain c1 cs2 where c1: "cs1 = c1 # cs2" by (cases cs1) auto
  have none: "match_style (c1 # cs2) = None"
  proof (rule ccontr)
    assume "match_style (c1 # cs2) \<noteq> None"
    then obtain m l r where ms: "match_style (c1 # cs2) = Some (m, l, r)" by auto
    then have "m \<in> set STYLE_NAMES" using match_style_shape by blast
    moreover have "m @ (''{'' @ [l] @ ''}'' @ sub_style r) = n @ (ws2 @ CHR '';'' # rest)"
      using cs1(2) c1 ms by simp
    ultimately show False using style_rel_clash w(2) by blast
  qed
  then have "c1 = bsl" "sub_style cs2 = (n @ ws2 @ '';'') @ rest"
    using cs1(2) c1 by simp_all
  then obtain r'' where "cs2 = (n @ ws2 @ '';'') @ r''"
    using sub_style_reflect rel_tail_chars(1) [OF w(2,4)] by blast
  then have "c # cs = CHR '';'' # ws1 @ bsl # n @ ws2 @ CHR '';'' # r''"
    using w(1) cs1(1) c1 \<open>c1 = bsl\<close> by simp
  then show False using assms match_rel_some [OF w(2,3,4)] by simp
qed

lemma hash_reflect_inner:
  "hash_loop f cs = p @ r' \<Longrightarrow> CHR ''#'' \<notin> set p \<Longrightarrow> (p \<noteq> [] \<longrightarrow> last p \<noteq> bsl)
     \<Longrightarrow> \<exists>r''. cs = p @ r''"
proof (induction cs arbitrary: p f r')
  case Nil
  then show ?case by simp
next
  case (Cons c cs)
  show ?case
  proof (cases p)
    case Nil
    then show ?thesis by simp
  next
    case p: (Cons x p')
    show ?thesis
    proof (cases "c = CHR ''#'' \<and> \<not> f")
      case True
      then have h: "bsl # CHR ''#'' # hash_loop False cs = x # p' @ r'"
        using Cons.prems(1) p by simp
      then have "p' \<noteq> []" using Cons.prems(3) p by (cases p') auto
      then have "CHR ''#'' \<in> set p'" using h by (cases p') auto
      then show ?thesis using Cons.prems(2) p by simp
    next
      case False
      then have h: "c = x" "hash_loop (c = bsl) cs = p' @ r'"
        using Cons.prems(1) p by auto
      have "CHR ''#'' \<notin> set p'" "p' \<noteq> [] \<longrightarrow> last p' \<noteq> bsl"
        using Cons.prems(2,3) p by auto
      then obtain r'' where "cs = p' @ r''" using Cons.IH [OF h(2)] by blast
      then show ?thesis using h(1) p by simp
    qed
  qed
qed

lemma match_rel_after_hash:
  assumes "match_rel (c # cs) = None"
  shows "match_rel (c # hash_loop f cs) = None"
proof (rule ccontr)
  assume "match_rel (c # hash_loop f cs) \<noteq> None"
  then obtain cmd rest where "match_rel (c # hash_loop f cs) = Some (cmd, rest)" by auto
  then obtain ws1 n ws2 where w: "c # hash_loop f cs = CHR '';'' # ws1 @ bsl # n @ ws2 @ CHR '';'' # rest"
      "n \<in> set REL_NAMES" "list_all is_space ws1" "list_all is_space ws2"
    using match_rel_shape by blast
  let ?p = "ws1 @ bsl # n @ ws2 @ '';''"
  have "CHR ''#'' \<notin> set ws1" using w(3) space_classes by (auto simp: list_all_iff)
  then have "CHR ''#'' \<notin> set ?p" using rel_tail_chars(2) [OF w(2,4)] by auto
  moreover have "?p \<noteq> [] \<longrightarrow> last ?p \<noteq> bsl" by simp
  moreover have "hash_loop f cs = ?p @ rest" using w(1) by simp
  ultimately obtain r'' where "cs = ?p @ r''"
    using hash_reflect_inner by blast
  then have "c # cs = CHR '';'' # ws1 @ bsl # n @ ws2 @ CHR '';'' # r''" using w(1) by simp
  then show False using assms match_rel_some [OF w(2,3,4)] by simp
qed

lemma sub_rel_after_style: "sub_rel t = t \<Longrightarrow> sub_rel (sub_style t) = sub_style t"
proof (induction t rule: sub_style.induct)
  case 1
  then show ?case by simp
next
  case (2 c cs)
  have u: "match_rel (c # cs) = None" "sub_rel cs = cs"
    using sub_rel_unchanged_Cons [OF "2.prems"] by auto
  show ?case
  proof (cases "match_style (c # cs)")
    case None
    then have "sub_rel (sub_style cs) = sub_style cs" using 2(1) u(2) by simp
    then show ?thesis using None match_rel_after_style [OF u(1)] by simp
  next
    case (Some m)
    obtain n l rest where m: "m = (n, l, rest)" by (cases m)
    obtain ws where w: "c # cs = bsl # n @ ws @ l # rest" "n \<in> set STYLE_NAMES"
        "list_all is_space ws" "is_ascii_letter l"
      using match_style_shape Some m by blast
    have "sub_rel ((bsl # n @ ws @ [l]) @ rest) = (bsl # n @ ws @ [l]) @ rest"
      using "2.prems" w(1) by simp
    then have "sub_rel rest = rest" by (rule sub_rel_unchanged_suffix)
    then have ih: "sub_rel (sub_style rest) = sub_style rest"
      using 2(2) Some m by simp
    have "CHR '';'' \<notin> set n" using w(2) by (auto simp: STYLE_NAMES_def)
    moreover have "l \<noteq> CHR '';''" using w(4) by (auto simp: is_ascii_letter_def Let_def)
    ultimately have p: "CHR '';'' \<notin> set (bsl # n @ ''{'' @ [l] @ ''}'')" by auto
    have "sub_rel ((bsl # n @ ''{'' @ [l] @ ''}'') @ sub_style rest)
            = (bsl # n @ ''{'' @ [l] @ ''}'') @ sub_rel (sub_style rest)"
      by (rule sub_rel_plain_prefix [OF p])
    then show ?thesis using Some m ih by simp
  qed
qed

lemma sub_rel_after_hash: "sub_rel u = u \<Longrightarrow> sub_rel (hash_loop b u) = hash_loop b u"
proof (induction u arbitrary: b)
  case Nil
  then show ?case by simp
next
  case (Cons c cs)
  have u: "match_rel (c # cs) = None" "sub_rel cs = cs"
    using sub_rel_unchanged_Cons [OF Cons.prems] by auto
  have ih: "sub_rel (hash_loop (c = bsl) cs) = hash_loop (c = bsl) cs"
    using Cons.IH u(2) by simp
  show ?case
  proof (cases "c = CHR ''#'' \<and> \<not> b")
    case True
    then show ?thesis using ih by (simp add: match_rel_not_semicolon)
  next
    case False
    then show ?thesis using ih match_rel_after_hash [OF u(1)] by auto
  qed
qed

lemma rewrite_steps_stable:
  assumes "sub_thin (sub_style t) = sub_style t" "sub_rel (sub_style t) = sub_style t"
  shows "rewrite_steps (rewrite_steps t) = rewrite_steps t"
proof -
  let ?u = "sub_style t"
  let ?v = "hash_loop False ?u"
  have 1: "rewrite_steps t = ?v"
    using assms by (simp add: rewrite_steps_def)
  have s: "sub_style ?v = ?v"
    by (simp add: sub_style_hash_commute sub_style_idem)
  have "sub_thin ?v = ?v" "sub_rel ?v = ?v"
    using assms by (simp_all add: sub_thin_after_hash sub_rel_after_hash)
  then have "rewrite_steps ?v = ?v"
    using s by (simp add: rewrite_steps_def hash_loop_idem)
  then show ?thesis unfolding 1 .
qed

lemma space_is_space: "is_space (CHR '' '')"
  by (simp add: is_space_def)

lemma sub_rel_reflect:
  "sub_rel cs = p @ r' \<Longrightarrow> bsl \<notin> set p \<Longrightarrow> (p \<noteq> [] \<longrightarrow> \<not> is_space (last p))
     \<Longrightarrow> \<exists>r''. cs = p @ r''"
proof (induction cs arbitrary: p r')
  case Nil
  then show ?case by simp
next
  case (Cons c cs)
  show ?case
  proof (cases p)
    case Nil
    then show ?thesis by simp
  next
    case p: (Cons x p')
    show ?thesis
    proof (cases "match_rel (c # cs)")
      case (Some m)
      obtain cmd rest where m: "m = (cmd, rest)" by (cases m)
      then obtain n where "cmd = bsl # n" using Some match_rel_shape by blast
      then have "sub_rel (c # cs) = CHR '' '' # bsl # n @ '' '' @ sub_rel rest"
        using Some m by simp
      then have h: "x = CHR '' ''" "bsl # n @ '' '' @ sub_rel rest = p' @ r'"
        using Cons.prems(1) p by auto
      then have "p' \<noteq> []" using Cons.prems(3) p space_is_space by (cases p') auto
      then have "bsl \<in> set p'" using h(2) by (cases p') auto
      then show ?thesis using Cons.prems(2) p by simp
    next
      case None
      then have h: "c = x" "sub_rel cs = p' @ r'"
        using Cons.prems(1) p by auto
      have "bsl \<notin> set p'" "p' \<noteq> [] \<longrightarrow> \<not> is_space (last p')"
        using Cons.prems(2,3) p by auto
      then obtain r'' where "cs = p' @ r''" using Cons.IH [OF h(2)] by blast
      then show ?thesis using h(1) p by simp
    qed
  qed
qed

lemma match_thin_after_rel:
  assumes "match_thin (c # cs) = None"
  shows "match_thin (c # sub_rel cs) = None"
proof (rule ccontr)
  assume "match_thin (c # sub_rel cs) \<noteq> None"
  then obtain ws tok rest where "match_thin (c # sub_rel cs) = Some (ws, tok, rest)" by auto
  then obtain w where w: "c # sub_rel cs = CHR '','' # ws @ CHR ''d'' # w @ rest" "w \<noteq> []"
      "list_all is_space ws" "list_all is_word w"
    using match_thin_shape by blast
  let ?p = "ws @ CHR ''d'' # w"
  have "is_word (last w)" using w(2,4) by (simp add: list_all_iff)
  then have "\<not> is_space (last ?p)" using w(2) word_classes by simp
  moreover have "sub_rel cs = ?p @ rest" using w(1) by simp
  ultimately obtain r'' where "cs = ?p @ r''"
    using sub_rel_reflect thin_prefix_chars [OF w(3,4)] by blast
  then have "c # cs = CHR '','' # ws @ CHR ''d'' # w @ r''" using w(1) by simp
  then show False using assms match_thin_some [OF w(3,2,4)] by simp
qed

lemma match_style_after_rel:
  assumes "match_style (c # cs) = None"
  shows "match_style (c # sub_rel cs) = None"
proof (rule ccontr)
  assume "match_style (c # sub_rel cs) \<noteq> None"
  then obtain n l rest where m: "match_style (c # sub_rel cs) = Some (n, l, rest)" by auto
  then obtain ws where w: "c # sub_rel cs = bsl # n @ ws @ l # rest" "n \<in> set STYLE_NAMES"
      "ws \<noteq> []" "list_all is_space ws" "is_ascii_letter l"
    using match_style_shape by blast
  let ?p = "n @ ws @ [l]"
  have "\<not> is_space (last ?p)" using letter_classes [OF w(5)] by simp
  moreover have "sub_rel cs = ?p @ rest" using w(1) by simp
  moreover have "bsl \<notin> set ?p" using style_match_chars [OF w(2,4,5)] by blast
  ultimately obtain r'' where "cs = ?p @ r''"
    using sub_rel_reflect by blast
  then have "match_style (c # cs) = Some (n, l, r'')"
    using match_style_here [OF w(2,3,4,5)] w(1) by simp
  then show False using assms by simp
qed

lemma sub_style_unchanged_Cons:
  assumes "sub_style (c # cs) = c # cs"
  shows "match_style (c # cs) = None \<and> sub_style cs = cs"
proof (cases "match_style (c # cs)")
  case None
  then show ?thesis using assms by simp
next
  case (Some m)
  obtain n l rest where m: "m = (n, l, rest)" by (cases m)
  then obtain ws where w: "c # cs = bsl # n @ ws @ l # rest" "ws \<noteq> []" "list_all is_space ws"
    using Some match_style_shape by blast
  then obtain x ws' where x: "ws = x # ws'" "is_space x" by (cases ws) auto
  have "bsl # n @ ''{'' @ [l] @ ''}'' @ sub_style rest = bsl # n @ ws @ l # rest"
    using assms Some m w(1) by simp
  then have "x = CHR ''{''" using x(1) by simp
  then show ?thesis using x(2) by (simp add: is_space_def)
qed

lemma sub_style_unchanged_suffix: "sub_style (p @ r) = p @ r \<Longrightarrow> sub_style r = r"
proof (induction p)
  case Nil
  then show ?case by simp
next
  case (Cons a p)
  then have "sub_style (a # (p @ r)) = a # (p @ r)" by (simp only: append_Cons)
  then have "sub_style (p @ r) = p @ r" using sub_style_unchanged_Cons by blast
  then show ?case by (rule Cons.IH)
qed

lemma match_style_rel_name:
  assumes "n \<in> set REL_NAMES"
  shows "match_style (bsl # n @ x) = None"
proof -
  have "style_tail (n @ x) m = None" if "m \<in> set STYLE_NAMES" for m
  proof -
    have "\<not> starts_with (n @ x) m"
      using style_rel_clash [OF that assms] by (metis starts_with_iff)
    then show ?thesis by (simp add: style_tail_def)
  qed
  then have "first_some (style_tail (n @ x)) STYLE_NAMES = None"
    by (rule first_some_None)
  then show ?thesis by (simp add: match_style_def)
qed

lemma sub_thin_after_rel: "sub_thin u = u \<Longrightarrow> sub_thin (sub_rel u) = sub_rel u"
proof (induction u rule: sub_rel.induct)
  case 1
  then show ?case by simp
next
  case (2 c cs)
  have u: "match_thin (c # cs) = None" "sub_thin cs = cs"
    using sub_thin_unchanged_Cons [OF "2.prems"] by auto
  show ?case
  proof (cases "match_rel (c # cs)")
    case None
    then have "sub_thin (sub_rel cs) = sub_rel cs" using 2(1) u(2) by simp
    then show ?thesis using None match_thin_after_rel [OF u(1)] by simp
  next
    case (Some m)
    obtain cmd rest where m: "m = (cmd, rest)" by (cases m)
    obtain ws1 n ws2 where w: "c # cs = CHR '';'' # ws1 @ bsl # n @ ws2 @ CHR '';'' # rest"
        "cmd = bsl # n" "n \<in> set REL_NAMES"
      using match_rel_shape Some m by blast
    have "sub_thin ((CHR '';'' # ws1 @ bsl # n @ ws2 @ '';'') @ rest)
            = (CHR '';'' # ws1 @ bsl # n @ ws2 @ '';'') @ rest"
      using "2.prems" w(1) by simp
    then have "sub_thin rest = rest" by (rule sub_thin_unchanged_suffix)
    then have ih: "sub_thin (sub_rel rest) = sub_rel rest"
      using 2(2) Some m by simp
    have "CHR '','' \<notin> set n" using w(3) by (auto simp: REL_NAMES_def)
    then have p: "CHR '','' \<notin> set ('' '' @ cmd @ '' '')" using w(2) by auto
    have "sub_thin (('' '' @ cmd @ '' '') @ sub_rel rest)
            = ('' '' @ cmd @ '' '') @ sub_thin (sub_rel rest)"
      by (rule sub_thin_plain_prefix [OF p])
    then show ?thesis using Some m ih by simp
  qed
qed

lemma sub_style_after_rel: "sub_style u = u \<Longrightarrow> sub_style (sub_rel u) = sub_rel u"
proof (induction u rule: sub_rel.induct)
  case 1
  then show ?case by simp
next
  case (2 c cs)
  have u: "match_style (c # cs) = None" "sub_style cs = cs"
    using sub_style_unchanged_Cons [OF "2.prems"] by auto
  show ?case
  proof (cases "match_rel (c # cs)")
    case None
    then have "sub_style (sub_rel cs) = sub_rel cs" using 2(1) u(2) by simp
    then show ?thesis using None match_style_after_rel [OF u(1)] by simp
  next
    case (Some m)
    obtain cmd rest where m: "m = (cmd, rest)" by (cases m)
    obtain ws1 n ws2 where w: "c # cs = CHR '';'' # ws1 @ bsl # n @ ws2 @ CHR '';'' # rest"
        "cmd = bsl # n" "n \<in> set REL_NAMES"
      using match_rel_shape Some m by blast
    have "sub_style ((CHR '';'' # ws1 @ bsl # n @ ws2 @ '';'') @ rest)
            = (CHR '';'' # ws1 @ bsl # n @ ws2 @ '';'') @ rest"
      using "2.prems" w(1) by simp
    then have "sub_style rest = rest" by (rule sub_style_unchanged_suffix)
    then have ih: "sub_style (sub_rel rest) = sub_rel rest"
      using 2(2) Some m by simp
    have p: "bsl \<notin> set (n @ '' '')" using rel_names_chars [OF w(3)] by auto
    have "sub_style (CHR '' '' # bsl # n @ '' '' @ sub_rel rest)
            = CHR '' '' # bsl # sub_style ((n @ '' '') @ sub_rel rest)"
      using match_style_rel_name [OF w(3), of "'' '' @ sub_rel rest"]
      by (simp add: match_style_not_bsl)
    also have "\<dots> = CHR '' '' # bsl # (n @ '' '') @ sub_style (sub_rel rest)"
      by (simp only: sub_style_plain_prefix [OF p])
    finally show ?thesis using Some m ih w(2) by simp
  qed
qed

lemma rewrite_steps_settled:
  assumes "sub_thin (sub_style t) = sub_style t"
    "sub_rel (sub_rel (sub_style t)) = sub_rel (sub_style t)"
  shows "rewrite_steps (rewrite_steps t) = rewrite_steps t"
proof -
  let ?u = "sub_style t"
  let ?w = "sub_rel ?u"
  let ?v = "hash_loop False ?w"
  have 1: "rewrite_steps t = ?v"
    using assms(1) by (simp add: rewrite_steps_def)
  have "sub_style ?w = ?w"
    by (simp add: sub_style_after_rel sub_style_idem)
  then have s: "sub_style ?v = ?v"
    by (simp add: sub_style_hash_commute)
  have "sub_thin ?w = ?w"
    using assms(1) by (rule sub_thin_after_rel)
  then have "sub_thin ?v = ?v" "sub_rel ?v = ?v"
    using assms(2) by (simp_all add: sub_thin_after_hash sub_rel_after_hash)
  then have "rewrite_steps ?v = ?v"
    using s by (simp add: rewrite_steps_def hash_loop_idem)
  then show ?thesis unfolding 1 .
qed

text \<open>
  C2, as amended. Style-command grouping (step 1) and hash escaping (step 4) are
  idempotent on every text, each alone and one after the other. Applying steps 1 to 4
  twice gives the same result as applying them once on every text for which, in the run
  of the normalizer, step 2 rewrites nothing and the result of step 3 is left unchanged
  by step 3; in particular on every text that steps 2 and 3 leave unchanged.
\<close>

theorem rewrite_steps_idempotent_parts:
  "hash_loop False (hash_loop False t) = hash_loop False t
   \<and> sub_style (sub_style t) = sub_style t
   \<and> hash_loop False (sub_style (hash_loop False (sub_style t))) = hash_loop False (sub_style t)
   \<and> (sub_thin t = t \<and> sub_rel t = t
        \<longrightarrow> rewrite_steps (rewrite_steps t) = rewrite_steps t)
   \<and> (sub_thin (sub_style t) = sub_style t
        \<and> sub_rel (sub_rel (sub_style t)) = sub_rel (sub_style t)
        \<longrightarrow> rewrite_steps (rewrite_steps t) = rewrite_steps t)"
proof -
  have "rewrite_steps (rewrite_steps t) = rewrite_steps t"
    if "sub_thin t = t" "sub_rel t = t"
    using that by (intro rewrite_steps_stable sub_thin_after_style sub_rel_after_style)
  then show ?thesis
    using rewrite_steps_settled [of t]
    by (simp add: hash_loop_idem sub_style_idem style_hash_idem)
qed

theorem rewrite_steps_idempotent_parts_witness:
  "sub_thin ''f(x, y)'' = ''f(x, y)'' \<and> sub_rel ''f(x, y)'' = ''f(x, y)''
   \<and> rewrite_steps (rewrite_steps ''f(x, y)'') = rewrite_steps ''f(x, y)''
   \<and> sub_thin (''a; b, c #'' @ bsl # ''text  u'') = ''a; b, c #'' @ bsl # ''text  u''
   \<and> sub_rel (''a; b, c #'' @ bsl # ''text  u'') = ''a; b, c #'' @ bsl # ''text  u''
   \<and> rewrite_steps (''a; b, c #'' @ bsl # ''text  u'') = ''a; b, c '' @ bsl # ''#'' @ bsl # ''text{u}''
   \<and> rewrite_steps (rewrite_steps (''a; b, c #'' @ bsl # ''text  u''))
       = rewrite_steps (''a; b, c #'' @ bsl # ''text  u'')
   \<and> rewrite_steps ('';'' @ bsl # ''sim;'') = '' '' @ bsl # ''sim ''
   \<and> rewrite_steps (rewrite_steps ('';'' @ bsl # ''sim;'')) = rewrite_steps ('';'' @ bsl # ''sim;'')"
proof -
  have 1: "sub_thin ''f(x, y)'' = ''f(x, y)''" "sub_rel ''f(x, y)'' = ''f(x, y)''"
    by code_simp+
  have 2: "sub_thin (''a; b, c #'' @ bsl # ''text  u'') = ''a; b, c #'' @ bsl # ''text  u''"
    "sub_rel (''a; b, c #'' @ bsl # ''text  u'') = ''a; b, c #'' @ bsl # ''text  u''"
    by code_simp+
  have 3: "rewrite_steps (''a; b, c #'' @ bsl # ''text  u'') = ''a; b, c '' @ bsl # ''#'' @ bsl # ''text{u}''"
    by code_simp
  have 4: "sub_thin (sub_style ('';'' @ bsl # ''sim;'')) = sub_style ('';'' @ bsl # ''sim;'')"
    "sub_rel (sub_rel (sub_style ('';'' @ bsl # ''sim;''))) = sub_rel (sub_style ('';'' @ bsl # ''sim;''))"
    by code_simp+
  have 5: "rewrite_steps ('';'' @ bsl # ''sim;'') = '' '' @ bsl # ''sim ''"
    by code_simp
  have "rewrite_steps (rewrite_steps ''f(x, y)'') = rewrite_steps ''f(x, y)''"
    using rewrite_steps_idempotent_parts [of "''f(x, y)''"] 1 by blast
  moreover have "rewrite_steps (rewrite_steps (''a; b, c #'' @ bsl # ''text  u''))
       = rewrite_steps (''a; b, c #'' @ bsl # ''text  u'')"
    using rewrite_steps_idempotent_parts [of "''a; b, c #'' @ bsl # ''text  u''"] 2 by blast
  moreover have "rewrite_steps (rewrite_steps ('';'' @ bsl # ''sim;'')) = rewrite_steps ('';'' @ bsl # ''sim;'')"
    using rewrite_steps_idempotent_parts [of "'';'' @ bsl # ''sim;''"] 4 by blast
  ultimately show ?thesis using 1 2 3 5 by blast
qed

text \<open>
  Step 2 rewrites its own output: the comma it keeps is again followed by the d-token.
  So neither steps 1 to 4 nor the whole normalizer are idempotent. Step 3 rewrites its
  own output on a nested wrap.
\<close>

theorem normalize_math_not_idempotent:
  "rewrite_steps '',dt'' = [bsl, CHR '',''] @ ''dt''
   \<and> rewrite_steps (rewrite_steps '',dt'') = [bsl, bsl, CHR '',''] @ ''dt''
   \<and> rewrite_steps (rewrite_steps '',dt'') \<noteq> rewrite_steps '',dt''
   \<and> normalize_math (normalize_math '',dt'') \<noteq> normalize_math '',dt''
   \<and> sub_rel (sub_rel ('';;'' @ bsl # ''sim;;'')) \<noteq> sub_rel ('';;'' @ bsl # ''sim;;'')"
proof -
  have 1: "rewrite_steps '',dt'' = [bsl, CHR '',''] @ ''dt''"
    by code_simp
  have 2: "rewrite_steps ([bsl, CHR '',''] @ ''dt'') = [bsl, bsl, CHR '',''] @ ''dt''"
    by code_simp
  have 3: "normalize_math '',dt'' = [bsl, CHR '',''] @ ''dt''"
    by code_simp
  have 4: "normalize_math ([bsl, CHR '',''] @ ''dt'') = [bsl, bsl, CHR '',''] @ ''dt''"
    by code_simp
  have 5: "sub_rel ('';;'' @ bsl # ''sim;;'') = ''; '' @ bsl # ''sim ;''"
    by code_simp
  have 6: "sub_rel (''; '' @ bsl # ''sim ;'') = '' '' @ bsl # ''sim ''"
    by code_simp
  show ?thesis unfolding 1 2 3 4 5 6 by simp
qed

section \<open>Properties of the remote-image test\<close>

text \<open>
  C10. The test for a remote image accepts a line that starts with a local image and
  holds a remote link further right: the lazy run of the pattern passes over the closing
  bracket of the image. The line is then dropped from the output.
\<close>

theorem is_remote_image_local_image_line:
  "is_remote_image ''![a](b.png) [c](http://x)''
   \<and> fix_content ''![a](b.png) [c](http://x)'' = []"
  by (simp add: fix_content_def fix_lines_def process.simps(2) is_remote_image_def strip_def
      lstrip_def rstrip_def is_space_def)

section \<open>Properties of the extractor and of the inline scanner\<close>

lemma paren_depth_Nil: "paren_depth [] = 0"
  by (simp add: paren_depth_def)

lemma paren_depth_Cons:
  "paren_depth (c # p) =
     (if c = CHR ''('' then 1 else if c = CHR '')'' then - 1 else 0) + paren_depth p"
  by (simp add: paren_depth_def)

lemma paren_loop_None:
  "(\<forall>p \<in> set (prefixes cs). p \<noteq> [] \<longrightarrow> d + paren_depth p \<noteq> 0)
     \<Longrightarrow> paren_loop s st i d cs = None"
proof (induction cs arbitrary: d i)
  case Nil
  then show ?case by simp
next
  case (Cons c cs)
  let ?k = "if c = CHR ''('' then 1 else if c = CHR '')'' then - 1 else (0::int)"
  have all: "\<forall>p \<in> set (prefixes cs). d + ?k + paren_depth p \<noteq> 0"
    using Cons.prems by (auto simp: paren_depth_Cons)
  then have "d + ?k + paren_depth [] \<noteq> 0"
    by (metis in_set_prefixes Nil_prefix)
  then have k: "d + ?k \<noteq> 0" by (simp add: paren_depth_Nil)
  have "paren_loop s st (Suc i) (d + ?k) cs = None"
    using all by (intro Cons.IH) auto
  then show ?case using k by (auto split: if_splits)
qed

lemma paren_loop_balanced:
  "(\<forall>p \<in> set (prefixes content). 1 \<le> d + paren_depth p) \<Longrightarrow> d + paren_depth content = 1
     \<Longrightarrow> paren_loop s st i d (content @ CHR '')'' # rest)
         = Some (slice s (Suc st) (i + length content), i + length content)"
proof (induction content arbitrary: d i)
  case Nil
  then show ?case by (simp add: paren_depth_Nil)
next
  case (Cons c cs)
  let ?k = "if c = CHR ''('' then 1 else if c = CHR '')'' then - 1 else (0::int)"
  have all: "\<forall>p \<in> set (prefixes cs). 1 \<le> d + ?k + paren_depth p"
    using Cons.prems(1) by (auto simp: paren_depth_Cons)
  then have "1 \<le> d + ?k + paren_depth []"
    by (metis in_set_prefixes Nil_prefix)
  then have k: "1 \<le> d + ?k" by (simp add: paren_depth_Nil)
  have e: "d + ?k + paren_depth cs = 1"
    using Cons.prems(2) by (simp add: paren_depth_Cons)
  have "paren_loop s st (Suc i) (d + ?k) (cs @ CHR '')'' # rest)
         = Some (slice s (Suc st) (Suc i + length cs), Suc i + length cs)"
    using all e by (intro Cons.IH) auto
  then show ?case using k by (auto split: if_splits)
qed

lemma extract_unclosed:
  assumes "never_closed (drop i line)"
  shows "extract_paren_content line i = None"
  using assms paren_loop_None [of "drop i line" 0 line i i]
  by (simp add: extract_paren_content_def never_closed_def)

lemma extract_balanced:
  assumes "balanced content"
  shows "extract_paren_content (CHR ''('' # content @ '')'') 0 = Some (content, Suc (length content))"
proof -
  let ?line = "CHR ''('' # content @ '')''"
  have "paren_loop ?line 0 (Suc 0) 1 (content @ CHR '')'' # [])
          = Some (slice ?line (Suc 0) (Suc 0 + length content), Suc 0 + length content)"
    using assms by (intro paren_loop_balanced) (auto simp: balanced_def)
  then show ?thesis
    by (simp add: extract_paren_content_def slice_def)
qed

lemma cip_loop_end: "length line \<le> i \<Longrightarrow> cip_loop line i = []"
  by (simp add: cip_loop.simps)

lemma cip_loop_step:
  "i < length line \<Longrightarrow> cip_step line i = (out, j) \<Longrightarrow> cip_loop line i = out @ cip_loop line j"
  by (subst cip_loop.simps) simp

lemma cip_step_unclosed:
  "extract_paren_content line i = None \<Longrightarrow> line ! i = CHR ''(''
     \<Longrightarrow> cip_step line i = (''('', Suc i)"
  by (simp add: cip_step_def)

lemma starts_with_length: "starts_with s p \<Longrightarrow> length p \<le> length s"
  by (auto simp: starts_with_iff)

lemma find_loop_le: "find_loop sub cs j = Some e \<Longrightarrow> e + length sub \<le> j + length cs"
proof (induction cs arbitrary: j)
  case Nil
  then show ?case by (simp split: if_splits)
next
  case (Cons c cs)
  show ?case
  proof (cases "starts_with (c # cs) sub")
    case True
    then show ?thesis using Cons.prems starts_with_length [OF True] by simp
  next
    case False
    then have "find_loop sub cs (Suc j) = Some e" using Cons.prems by simp
    then have "e + length sub \<le> Suc j + length cs" by (rule Cons.IH)
    then show ?thesis by simp
  qed
qed

lemma py_find_bounds:
  "py_find s sub start = Some e \<Longrightarrow> start \<le> e \<and> e + length sub \<le> length s"
  by (auto simp: py_find_def split: if_splits dest: find_loop_ge find_loop_le)

lemma paren_loop_result:
  "paren_loop s st i d cs = Some (content, e)
     \<Longrightarrow> i \<le> e \<and> e < i + length cs \<and> content = slice s (Suc st) e"
proof (induction cs arbitrary: i d)
  case Nil
  then show ?case by simp
next
  case (Cons c cs)
  show ?case
  proof (cases "c = CHR '')'' \<and> d - 1 = 0")
    case True
    then show ?thesis using Cons.prems by auto
  next
    case False
    then obtain d' where "paren_loop s st (Suc i) d' cs = Some (content, e)"
      using Cons.prems by (auto split: if_splits)
    then have "Suc i \<le> e \<and> e < Suc i + length cs \<and> content = slice s (Suc st) e"
      by (rule Cons.IH)
    then show ?thesis by simp
  qed
qed

lemma extract_paren_content_result:
  "extract_paren_content line i = Some (content, e)
     \<Longrightarrow> i \<le> e \<and> e < length line \<and> content = slice line (Suc i) e"
  by (auto simp: extract_paren_content_def split: if_splits dest!: paren_loop_result)

lemma command_at_append: "command_at s \<Longrightarrow> command_at (s @ c)"
proof -
  assume "command_at s"
  then obtain name post where "name \<in> set LATEX_COMMANDS" "s = bsl # name @ post"
    unfolding command_at_iff by blast
  then have "name \<in> set LATEX_COMMANDS \<and> s @ c = bsl # name @ (post @ c)"
    by simp
  then show ?thesis unfolding command_at_iff by blast
qed

lemma is_math_append: "is_math b \<Longrightarrow> is_math (a @ b @ c)"
proof -
  assume "is_math b"
  then obtain pre s where "b = pre @ s" "command_at s"
    unfolding is_math_iff_suffix by blast
  then have "a @ b @ c = (a @ pre) @ (s @ c) \<and> command_at (s @ c)"
    by (simp add: command_at_append)
  then show ?thesis unfolding is_math_iff_suffix by blast
qed

lemma is_math_take: "is_math (take n s) \<Longrightarrow> is_math s"
  using is_math_append [of "take n s" "[]" "drop n s"] by simp

lemma is_math_drop: "is_math (drop n s) \<Longrightarrow> is_math s"
  using is_math_append [of "drop n s" "take n s" "[]"] by simp

lemma is_math_slice: "i \<le> a \<Longrightarrow> is_math (slice line a b) \<Longrightarrow> is_math (drop i line)"
proof -
  assume ia: "i \<le> a" and m: "is_math (slice line a b)"
  have "drop a line = drop (a - i) (drop i line)" using ia by simp
  then have "slice line a b = take (b - a) (drop (a - i) (drop i line))"
    by (simp add: slice_def)
  then show ?thesis using m is_math_take is_math_drop by metis
qed

lemma slice_one: "i < length line \<Longrightarrow> [line ! i] = slice line i (Suc i)"
  by (simp add: slice_def take_Suc_conv_app_nth [of 0] hd_drop_conv_nth take_Suc)

lemma slice_drop: "i \<le> j \<Longrightarrow> slice line i j @ drop j line = drop i line"
proof -
  assume "i \<le> j"
  then have "drop j line = drop (j - i) (drop i line)" by simp
  then show ?thesis by (simp add: slice_def del: drop_drop)
qed

lemma cip_step_plain:
  assumes "i < length line" "\<not> is_math (drop i line)"
  shows "\<exists>j. cip_step line i = (slice line i j, j) \<and> i < j \<and> j \<le> length line"
proof -
  have char: "\<exists>j. ([line ! i], Suc i) = (slice line i j, j) \<and> i < j \<and> j \<le> length line"
    using assms(1) slice_one [of i line] by auto
  have nomath: "\<And>content e. extract_paren_content line i = Some (content, e) \<Longrightarrow> \<not> is_math content"
    using assms(2) is_math_slice [of i "Suc i" line] extract_paren_content_result by fastforce
  have paren: "(if line ! i = CHR ''('' then
               (case extract_paren_content line i of
                  None \<Rightarrow> ([line ! i], Suc i)
                | Some (content, end) \<Rightarrow>
                    if is_math content
                    then (''$'' @ normalize_math content @ ''$'', Suc end)
                    else ([line ! i], Suc i))
             else ([line ! i], Suc i)) = ([line ! i], Suc i)"
    using nomath by (auto split: option.splits)
  have found: "\<exists>j. (slice line i (e + k), e + k) = (slice line i j, j) \<and> i < j \<and> j \<le> length line"
    if "py_find line sub (i + k) = Some e" "length sub = k" "0 < k" for sub k e
    using py_find_bounds [OF that(1)] that(2,3) by auto
  show ?thesis
  proof (cases "line ! i = CHR ''$''")
    case False
    then have "cip_step line i = ([line ! i], Suc i)"
      using paren by (simp add: cip_step_def Let_def)
    then show ?thesis using char by simp
  next
    case True
    show ?thesis
    proof (cases "slice line i (i + 2) = ''$$''")
      case dd: True
      show ?thesis
      proof (cases "py_find line ''$$'' (i + 2)")
        case None
        then have "cip_step line i = ([line ! i], Suc i)"
          using paren True dd by (simp add: cip_step_def Let_def)
        then show ?thesis using char by simp
      next
        case (Some e)
        then have "cip_step line i = (slice line i (e + 2), e + 2)"
          using True dd by (simp add: cip_step_def Let_def)
        then show ?thesis using found [OF Some] by simp
      qed
    next
      case nd: False
      show ?thesis
      proof (cases "py_find line ''$'' (i + 1)")
        case None
        then have "cip_step line i = ([line ! i], Suc i)"
          using paren True nd by (simp add: cip_step_def Let_def)
        then show ?thesis using char by simp
      next
        case (Some e)
        then have "cip_step line i = (slice line i (e + 1), e + 1)"
          using True nd by (simp add: cip_step_def Let_def)
        then show ?thesis using found [OF Some] by simp
      qed
    qed
  qed
qed

lemma cip_loop_plain: "\<not> is_math (drop i line) \<Longrightarrow> cip_loop line i = drop i line"
proof (induction line i rule: cip_loop.induct)
  case (1 line i)
  show ?case
  proof (cases "i < length line")
    case False
    then show ?thesis by (simp add: cip_loop_end)
  next
    case True
    obtain j where j: "cip_step line i = (slice line i j, j)" "i < j" "j \<le> length line"
      using cip_step_plain [OF True "1.prems"] by blast
    have "drop j line = drop (j - i) (drop i line)" using j(2) by simp
    then have "\<not> is_math (drop j line)" using "1.prems" is_math_drop by metis
    then have "cip_loop line j = drop j line"
      using "1.IH" [OF True j(1) [symmetric]] by simp
    then show ?thesis
      using cip_loop_step [OF True j(1)] j(2) by (simp add: slice_drop)
  qed
qed

lemma convert_inline_parens_plain: "\<not> is_math line \<Longrightarrow> convert_inline_parens line = line"
  using cip_loop_plain [of 0 line] by (simp add: convert_inline_parens_def)

lemma command_names_no_paren: "\<forall>name \<in> set LATEX_COMMANDS. CHR '')'' \<notin> set name"
  by (simp add: LATEX_COMMANDS_def)

lemma is_math_snoc_paren: "is_math (xs @ '')'') \<Longrightarrow> is_math xs"
proof -
  assume "is_math (xs @ '')'')"
  then obtain pre s where ps: "xs @ '')'' = pre @ s" "command_at s"
    unfolding is_math_iff_suffix by blast
  then obtain name post where n: "name \<in> set LATEX_COMMANDS" "s = bsl # name @ post"
    unfolding command_at_iff by blast
  show ?thesis
  proof (cases post rule: rev_cases)
    case Nil
    then have "xs @ '')'' = pre @ bsl # name"
      using ps n by simp
    then have "last (bsl # name) = CHR '')''"
      by (metis last_appendR last_snoc list.distinct(1))
    then have "name \<noteq> [] \<and> last name = CHR '')''"
      by (cases name) (auto split: if_splits)
    then have "CHR '')'' \<in> set name"
      using last_in_set by metis
    then show ?thesis using n(1) command_names_no_paren by blast
  next
    case (snoc post' c)
    then have "xs @ '')'' = (pre @ bsl # name @ post') @ [c]"
      using ps n by simp
    then have "xs = pre @ bsl # name @ post'"
      by (metis append1_eq_conv)
    then have "xs = pre @ (bsl # name @ post') \<and> command_at (bsl # name @ post')"
      using n(1) command_at_iff by auto
    then show ?thesis unfolding is_math_iff_suffix by blast
  qed
qed

lemma is_math_paren_line: "is_math (CHR ''('' # content @ '')'') \<Longrightarrow> is_math content"
proof -
  assume "is_math (CHR ''('' # content @ '')'')"
  then have "is_math (content @ '')'')" by (simp add: command_at_def)
  then show ?thesis by (rule is_math_snoc_paren)
qed

text \<open>
  C1. A line that is one balanced parenthesized span, \<open>(content)\<close>: when the content holds
  a recognized command, the scanner gives the normalized content between single dollar
  signs; when it holds none, the scanner gives the line back, parentheses included.
\<close>

theorem convert_paren_line:
  assumes "balanced content"
  shows "(is_math content \<longrightarrow>
            convert_inline_parens (''('' @ content @ '')'') = ''$'' @ normalize_math content @ ''$'')
       \<and> (\<not> is_math content \<longrightarrow>
            convert_inline_parens (''('' @ content @ '')'') = ''('' @ content @ '')'')"
proof (intro conjI impI)
  let ?line = "CHR ''('' # content @ '')''"
  assume m: "is_math content"
  have "cip_step ?line 0 = (''$'' @ normalize_math content @ ''$'', Suc (Suc (length content)))"
    using m extract_balanced [OF assms] by (simp add: cip_step_def)
  then have "cip_loop ?line 0 = (''$'' @ normalize_math content @ ''$'') @ cip_loop ?line (Suc (Suc (length content)))"
    by (intro cip_loop_step) simp_all
  then show "convert_inline_parens (''('' @ content @ '')'') = ''$'' @ normalize_math content @ ''$''"
    by (simp add: convert_inline_parens_def cip_loop_end)
next
  assume "\<not> is_math content"
  then have "\<not> is_math (''('' @ content @ '')'')"
    using is_math_paren_line by auto
  then show "convert_inline_parens (''('' @ content @ '')'') = ''('' @ content @ '')''"
    by (rule convert_inline_parens_plain)
qed

theorem convert_paren_line_witness:
  "convert_inline_parens (''('' @ bsl # ''alpha + '' @ bsl # ''beta)'')
     = ''$'' @ bsl # ''alpha + '' @ bsl # ''beta$''
   \<and> convert_inline_parens ''(plain (text))'' = ''(plain (text))''"
proof -
  have b1: "balanced (bsl # ''alpha + '' @ bsl # ''beta'')"
    by (simp add: balanced_def paren_depth_def)
  have m1: "is_math (bsl # ''alpha + '' @ bsl # ''beta'')"
    by (simp add: command_at_def LATEX_COMMANDS_def)
  have n1: "normalize_math (bsl # ''alpha + '' @ bsl # ''beta'') = bsl # ''alpha + '' @ bsl # ''beta''"
    by code_simp
  have b2: "balanced ''plain (text)''"
    by (simp add: balanced_def paren_depth_def)
  have m2: "\<not> is_math ''plain (text)''"
    by (simp add: command_at_def)
  have "convert_inline_parens (''('' @ (bsl # ''alpha + '' @ bsl # ''beta'') @ '')'')
          = ''$'' @ normalize_math (bsl # ''alpha + '' @ bsl # ''beta'') @ ''$''"
    using convert_paren_line [OF b1] m1 by blast
  moreover have "convert_inline_parens (''('' @ ''plain (text)'' @ '')'') = ''('' @ ''plain (text)'' @ '')''"
    using convert_paren_line [OF b2] m2 by blast
  ultimately show ?thesis
    unfolding n1 by simp
qed

text \<open>
  C8, as amended. At an opening parenthesis that is never closed on the line, the
  extractor reports no match; the scanner writes the parenthesis itself and resumes at the
  next character under its usual rules. When the rest of the line holds no recognized
  command, the whole rest passes through unchanged.
\<close>

theorem unclosed_paren_is_literal:
  assumes "i < length line" "line ! i = CHR ''(''" "never_closed (drop i line)"
  shows "extract_paren_content line i = None
       \<and> cip_loop line i = CHR ''('' # cip_loop line (Suc i)
       \<and> (\<not> is_math (drop (Suc i) line) \<longrightarrow> cip_loop line i = drop i line)"
proof -
  have n: "extract_paren_content line i = None"
    using assms(3) by (rule extract_unclosed)
  have s: "cip_loop line i = CHR ''('' # cip_loop line (Suc i)"
    using cip_loop_step [OF assms(1) cip_step_unclosed [OF n assms(2)]] by simp
  have "cip_loop line i = drop i line" if "\<not> is_math (drop (Suc i) line)"
  proof -
    have "cip_loop line (Suc i) = drop (Suc i) line"
      using that by (rule cip_loop_plain)
    then show ?thesis
      using s assms(1,2) by (simp add: Cons_nth_drop_Suc [symmetric])
  qed
  then show ?thesis using n s by blast
qed

theorem unclosed_paren_is_literal_witness:
  "extract_paren_content ''f(x'' 1 = None \<and> cip_loop ''f(x'' 1 = ''(x''"
proof -
  have 1: "never_closed (drop 1 ''f(x'')"
    by (simp add: never_closed_def paren_depth_def)
  have 2: "\<not> is_math (drop (Suc 1) ''f(x'')"
    by (simp add: command_at_def)
  have p: "1 < length ''f(x''" "''f(x'' ! 1 = CHR ''(''"
    by simp_all
  have "extract_paren_content ''f(x'' 1 = None \<and> cip_loop ''f(x'' 1 = drop 1 ''f(x''"
    using unclosed_paren_is_literal [OF p 1] 2 by blast
  then show ?thesis by simp
qed

text \<open>
  The rest of the line after an unclosed parenthesis is not always literal: a balanced
  math span further right is still converted.
\<close>

theorem unclosed_paren_rest_converted:
  "never_closed (''(('' @ bsl # ''alpha)'')
   \<and> convert_inline_parens (''(('' @ bsl # ''alpha)'') = ''($'' @ bsl # ''alpha$''
   \<and> convert_inline_parens (''(('' @ bsl # ''alpha)'') \<noteq> ''(('' @ bsl # ''alpha)''"
proof -
  have "never_closed (''(('' @ bsl # ''alpha)'')"
    by (simp add: never_closed_def paren_depth_def)
  moreover have "convert_inline_parens (''(('' @ bsl # ''alpha)'') = ''($'' @ bsl # ''alpha$''"
    by code_simp
  ultimately show ?thesis by simp
qed

section \<open>Properties of the block processor\<close>

lemma bracket_line_not_special:
  "strip l = ''['' \<Longrightarrow> \<not> starts_with (strip l) ''```'' \<and> \<not> is_remote_image l"
  by (simp add: is_remote_image_def)

lemma dollars_line_not_special:
  "strip l = ''$$'' \<Longrightarrow>
     \<not> starts_with (strip l) ''```'' \<and> \<not> is_remote_image l \<and> strip l \<noteq> ''[''"
  by (simp add: is_remote_image_def)

lemma takeWhile_block: "\<forall>b \<in> set body. P b \<Longrightarrow> \<not> P t \<Longrightarrow> takeWhile P (body @ t # rest) = body"
  by (induction body) auto

lemma dropWhile_block: "\<forall>b \<in> set body. P b \<Longrightarrow> \<not> P t \<Longrightarrow> dropWhile P (body @ t # rest) = t # rest"
  by (induction body) auto

lemma takeWhile_whole: "\<forall>b \<in> set xs. P b \<Longrightarrow> takeWhile P xs = xs"
  by (induction xs) auto

lemma dropWhile_whole: "\<forall>b \<in> set xs. P b \<Longrightarrow> dropWhile P xs = []"
  by (induction xs) auto

text \<open>
  C4. Outside a code block, a line that trims to \<open>[\<close>, interior lines none of which
  trims to \<open>]\<close>, and a line that trims to \<open>]\<close>: when the cleaned interior is empty the
  block appends nothing, otherwise it appends an empty line, a \<open>$$\<close> line, the cleaned
  interior, a \<open>$$\<close> line and an empty line, in this order. Processing goes on after the
  closing line.
\<close>

theorem bracket_block_output:
  assumes "strip l = ''[''" "\<forall>b \<in> set body. strip b \<noteq> '']''" "strip t = '']''"
  shows "process False (l # body @ t # rest) =
           (if clean_display_lines body = [] then []
            else [[], ''$$''] @ clean_display_lines body @ [''$$'', []])
           @ process False rest"
  using assms
  by (simp add: process.simps(2) bracket_line_not_special takeWhile_block dropWhile_block
      display_block_def)

theorem bracket_block_output_witness:
  "process False [''['', ''x = y'', '']''] = [[], ''$$'', ''x = y'', ''$$'', []]
   \<and> process False [''['', ''----------'', '']''] = []
   \<and> fix_content ''[\<newline>x = y\<newline>]'' = ''\<newline>$$\<newline>x = y\<newline>$$\<newline>''
   \<and> fix_content ''[\<newline>----------\<newline>]'' = []"
proof -
  have s: "strip ''['' = ''[''" "strip '']'' = '']''"
    by code_simp+
  have b: "\<forall>b \<in> set [''x = y'']. strip b \<noteq> '']''" "\<forall>b \<in> set [''----------'']. strip b \<noteq> '']''"
    by code_simp+
  have c: "clean_display_lines [''x = y''] = [''x = y'']"
    "clean_display_lines [''----------''] = []"
    by code_simp+
  have 1: "process False [''['', ''x = y'', '']''] = [[], ''$$'', ''x = y'', ''$$'', []]"
    using bracket_block_output [OF s(1) b(1) s(2), of "[]"] unfolding c by simp
  have 2: "process False [''['', ''----------'', '']''] = []"
    using bracket_block_output [OF s(1) b(2) s(2), of "[]"] unfolding c by simp
  have 3: "split_nl ''[\<newline>x = y\<newline>]'' = [''['', ''x = y'', '']'']"
    "split_nl ''[\<newline>----------\<newline>]'' = [''['', ''----------'', '']'']"
    by simp_all
  show ?thesis
    unfolding fix_content_def fix_lines_def 3 1 2 by simp
qed

text \<open>
  C9. Outside a code block, an opening line (\<open>[\<close> or \<open>$$\<close>) with no closing line after
  it: all the lines up to the end of the document are the interior, they are cleaned and
  appended under the rule of a display block, and the loop ends there. The function is
  total and has no error result.
\<close>

theorem unterminated_block_to_end:
  assumes "(strip l = ''['' \<and> (\<forall>b \<in> set rest. strip b \<noteq> '']''))
         \<or> (strip l = ''$$'' \<and> (\<forall>b \<in> set rest. strip b \<noteq> ''$$''))"
  shows "process False (l # rest) =
           (if clean_display_lines rest = [] then []
            else [[], ''$$''] @ clean_display_lines rest @ [''$$'', []])"
  using assms
  by (auto simp add: process.simps(2) bracket_line_not_special dollars_line_not_special
      display_block_def takeWhile_whole dropWhile_whole)

theorem unterminated_block_to_end_witness:
  "process False [''$$'', ''x = y'', ''z''] = [[], ''$$'', ''x = y'', ''z'', ''$$'', []]
   \<and> process False [''['', ''x = y''] = [[], ''$$'', ''x = y'', ''$$'', []]"
proof -
  have h1: "(strip ''$$'' = ''['' \<and> (\<forall>b \<in> set [''x = y'', ''z'']. strip b \<noteq> '']''))
         \<or> (strip ''$$'' = ''$$'' \<and> (\<forall>b \<in> set [''x = y'', ''z'']. strip b \<noteq> ''$$''))"
    by code_simp
  have h2: "(strip ''['' = ''['' \<and> (\<forall>b \<in> set [''x = y'']. strip b \<noteq> '']''))
         \<or> (strip ''['' = ''$$'' \<and> (\<forall>b \<in> set [''x = y'']. strip b \<noteq> ''$$''))"
    by code_simp
  have c: "clean_display_lines [''x = y'', ''z''] = [''x = y'', ''z'']"
    "clean_display_lines [''x = y''] = [''x = y'']"
    by code_simp+
  show ?thesis
    unfolding unterminated_block_to_end [OF h1] unterminated_block_to_end [OF h2] c by simp
qed

lemma process_code_block:
  "\<forall>l \<in> set body. \<not> starts_with (strip l) ''```''
     \<Longrightarrow> process True (body @ rest) = body @ process True rest"
  by (induction body) (auto simp: process.simps(2))

lemma collapse_blank_keeps_text:
  "filter (\<lambda>l. l \<noteq> []) (collapse_blank b ls) = filter (\<lambda>l. l \<noteq> []) ls"
  by (induction ls arbitrary: b) auto

lemma collapse_blank_subseq: "subseq (collapse_blank b ls) ls"
  by (induction ls arbitrary: b) auto

lemma collapse_blank_exact:
  "collapse_blank b ls =
     map fst (filter (\<lambda>(l, prev_empty). l \<noteq> [] \<or> \<not> prev_empty)
       (zip ls (b # map (\<lambda>l. l = []) ls)))"
  by (induction ls arbitrary: b) auto

text \<open>
  C5, as amended. After an opening fence line, every line up to the next fence line is
  appended to the result as it is, with no rewrite. The final pass over the result
  deletes exactly the empty lines whose predecessor in the result is empty (for the first
  line, when the flag \<open>prev_empty\<close> is set): every other line, empty or not, is kept
  unchanged and in order.
\<close>

theorem code_block_lines_appended:
  assumes "starts_with (strip fence) ''```''" "\<forall>l \<in> set body. \<not> starts_with (strip l) ''```''"
  shows "process False (fence # body @ rest) = fence # body @ process True rest
       \<and> collapse_blank b ls =
           map fst (filter (\<lambda>(l, prev_empty). l \<noteq> [] \<or> \<not> prev_empty)
             (zip ls (b # map (\<lambda>l. l = []) ls)))
       \<and> subseq (collapse_blank b ls) ls
       \<and> filter (\<lambda>l. l \<noteq> []) (collapse_blank b ls) = filter (\<lambda>l. l \<noteq> []) ls"
proof -
  have "process False (fence # body @ rest) = fence # body @ process True rest"
    using assms by (simp add: process.simps(2) process_code_block)
  then show ?thesis
    using collapse_blank_exact [of b ls] collapse_blank_keeps_text [of b ls]
      collapse_blank_subseq [of b ls]
    by blast
qed

theorem code_block_lines_appended_witness:
  "process False [''```'', ''(# [ x)'', [], ''```''] = [''```'', ''(# [ x)'', [], ''```'']
   \<and> collapse_blank False [''```'', ''(# [ x)'', [], ''```''] = [''```'', ''(# [ x)'', [], ''```'']
   \<and> fix_content ''```\<newline>(# [ x)\<newline>\<newline>```'' = ''```\<newline>(# [ x)\<newline>\<newline>```''"
proof -
  have s: "starts_with (strip ''```'') ''```''"
    by code_simp
  have b: "\<forall>l \<in> set [''(# [ x)'', []]. \<not> starts_with (strip l) ''```''"
    by code_simp
  have e: "process True [''```''] = [''```'']"
    using s by (simp add: process.simps(2))
  note t = code_block_lines_appended [OF s b, of "[''```'']" False "[''```'', ''(# [ x)'', [], ''```'']"]
  have 1: "process False (''```'' # [''(# [ x)'', []] @ [''```''])
             = ''```'' # [''(# [ x)'', []] @ process True [''```'']"
    using t by blast
  have "collapse_blank False [''```'', ''(# [ x)'', [], ''```''] =
     map fst (filter (\<lambda>(l, prev_empty). l \<noteq> [] \<or> \<not> prev_empty)
       (zip [''```'', ''(# [ x)'', [], ''```'']
          (False # map (\<lambda>l. l = []) [''```'', ''(# [ x)'', [], ''```''])))"
    using t by blast
  then have 2: "collapse_blank False [''```'', ''(# [ x)'', [], ''```'']
                  = [''```'', ''(# [ x)'', [], ''```'']"
    by simp
  have 3: "process False [''```'', ''(# [ x)'', [], ''```''] = [''```'', ''(# [ x)'', [], ''```'']"
    using 1 unfolding e by simp
  have 4: "split_nl ''```\<newline>(# [ x)\<newline>\<newline>```'' = [''```'', ''(# [ x)'', [], ''```'']"
    by simp
  show ?thesis
    unfolding fix_content_def fix_lines_def 4 3 2 using 2 3 by simp
qed

text \<open>
  The final pass deletes an empty line that follows an empty line, inside a code block
  too: the output has one line less than the input.
\<close>

theorem code_block_blank_line_dropped:
  "fix_content ''```\<newline>\<newline>\<newline>```'' = ''```\<newline>\<newline>```''
   \<and> fix_content ''```\<newline>\<newline>\<newline>```'' \<noteq> ''```\<newline>\<newline>\<newline>```''"
proof -
  have "fix_content ''```\<newline>\<newline>\<newline>```'' = ''```\<newline>\<newline>```''"
    by code_simp
  then show ?thesis by simp
qed

section \<open>Documents in converted form\<close>

lemma hash_loop_escaped: "hashes_escaped b l \<Longrightarrow> hash_loop b l = l"
  by (induction l arbitrary: b) auto

lemma sub_run_no_run3: "no_run3 x l \<Longrightarrow> sub_run x l = l"
  by (induction x l rule: no_run3.induct) auto

lemma collapse_ws_single_spaced: "single_spaced l \<Longrightarrow> collapse_ws l = l"
proof (induction l)
  case Nil
  then show ?case by simp
next
  case (Cons c cs)
  show ?case
  proof (cases "is_space c")
    case False
    then show ?thesis using Cons by simp
  next
    case True
    then have "dropWhile is_space cs = cs"
      using Cons.prems by (cases cs) auto
    then show ?thesis using True Cons by simp
  qed
qed

lemma rstrip_id: "l \<noteq> [] \<Longrightarrow> \<not> is_space (last l) \<Longrightarrow> rstrip l = l"
  by (cases l rule: rev_cases) (auto simp: rstrip_def)

lemma strip_nonempty: "l \<noteq> [] \<Longrightarrow> \<not> is_space (last l) \<Longrightarrow> strip l \<noteq> []"
proof -
  assume a: "l \<noteq> []" "\<not> is_space (last l)"
  then have "last l \<in> set l" by simp
  then have n: "lstrip l \<noteq> []"
    using a(2) by (auto simp: lstrip_def)
  have "last (lstrip l) = last l"
    unfolding lstrip_def using n a
    by (metis append_take_drop_id dropWhile_eq_drop last_appendR lstrip_def)
  then show ?thesis
    using n a(2) by (simp add: strip_def rstrip_id)
qed

lemma clean_line_id: "cleaned_line l \<Longrightarrow> clean_line l = l"
  by (simp add: cleaned_line_def clean_line_def escape_hash_in_math_def sub_run_no_run3
      hash_loop_escaped collapse_ws_single_spaced)

lemma clean_display_lines_id: "list_all cleaned_line ls \<Longrightarrow> clean_display_lines ls = ls"
proof (induction ls)
  case Nil
  then show ?case by simp
next
  case (Cons l ls)
  then have c: "cleaned_line l" by simp
  then have "clean_line l = l" "\<not> is_pure_separator l" "strip l \<noteq> []" "rstrip l = l"
    by (simp_all add: clean_line_id cleaned_line_def strip_nonempty rstrip_id)
  then show ?case using Cons by simp
qed

lemma split_nl_nonempty: "split_nl s \<noteq> []"
  by (induction s) (auto split: list.splits)

lemma join_split_nl: "join_nl (split_nl s) = s"
proof (induction s)
  case Nil
  then show ?case by simp
next
  case (Cons c cs)
  obtain l ls where s: "split_nl cs = l # ls"
    using split_nl_nonempty [of cs] by (cases "split_nl cs") auto
  show ?case
  proof (cases "c = nl")
    case True
    then show ?thesis using Cons s by simp
  next
    case False
    then show ?thesis using Cons s by (cases ls) auto
  qed
qed

lemma drop_at:
  assumes "drop i line = c # cs"
  shows "i < length line" "line ! i = c" "drop (i + k) line = drop k (c # cs)"
proof -
  show 1: "i < length line" using assms by (cases "i < length line") auto
  show "line ! i = c" using assms 1 by (metis hd_drop_conv_nth list.sel(1))
  show "drop (i + k) line = drop k (c # cs)"
    using assms by (metis add.commute drop_drop)
qed

lemma span_content_prefix:
  "span_content d cs = Some content \<Longrightarrow> \<exists>r. cs = content @ CHR '')'' # r"
proof (induction cs arbitrary: d content)
  case Nil
  then show ?case by simp
next
  case (Cons c cs)
  show ?case
  proof (cases "c = CHR '')'' \<and> d = 1")
    case True
    then show ?thesis using Cons.prems by simp
  next
    case False
    then obtain d' content' where "span_content d' cs = Some content'" "content = c # content'"
      using Cons.prems by (auto split: if_splits)
    then show ?thesis using Cons.IH by fastforce
  qed
qed

lemma paren_loop_span:
  "1 \<le> d \<Longrightarrow> paren_loop s st i (int d) cs =
     (case span_content d cs of
        None \<Rightarrow> None
      | Some content \<Rightarrow> Some (slice s (Suc st) (i + length content), i + length content))"
proof (induction cs arbitrary: d i)
  case Nil
  then show ?case by simp
next
  case (Cons c cs)
  let ?res = "\<lambda>d i. (case span_content d cs of
        None \<Rightarrow> None
      | Some content \<Rightarrow> Some (slice s (Suc st) (i + length content), i + length content))"
  have shift: "(case map_option ((#) c) (span_content d' cs) of
        None \<Rightarrow> None
      | Some content \<Rightarrow> Some (slice s (Suc st) (i + length content), i + length content))
      = ?res d' (Suc i)" for d'
    by (cases "span_content d' cs") simp_all
  show ?case
  proof (cases "c = CHR '')''")
    case True
    show ?thesis
    proof (cases "d = 1")
      case d1: True
      have "paren_loop s st i (int d) (c # cs) = Some (slice s (Suc st) i, i)"
        using True d1 by simp
      moreover have "span_content d (c # cs) = Some []"
        using True d1 by simp
      ultimately show ?thesis by simp
    next
      case False
      then have d: "1 \<le> d - 1" using Cons.prems by simp
      have e: "int d - 1 = int (d - 1)" using Cons.prems by simp
      have n: "int d - 1 \<noteq> 0" using False Cons.prems by simp
      have "paren_loop s st i (int d) (c # cs) = paren_loop s st (Suc i) (int d - 1) cs"
        using True n by simp
      also have "\<dots> = ?res (d - 1) (Suc i)"
        unfolding e using Cons.IH [OF d] .
      finally have l: "paren_loop s st i (int d) (c # cs) = ?res (d - 1) (Suc i)" .
      have "span_content d (c # cs) = map_option ((#) c) (span_content (d - 1) cs)"
        using True False by simp
      then show ?thesis unfolding l using shift [of "d - 1"] by simp
    qed
  next
    case False
    let ?d = "if c = CHR ''('' then Suc d else d"
    have d: "1 \<le> ?d" using Cons.prems by simp
    have "paren_loop s st i (int d) (c # cs) = paren_loop s st (Suc i) (int ?d) cs"
      using False by (simp add: add.commute)
    also have "\<dots> = ?res ?d (Suc i)"
      using Cons.IH [OF d] .
    finally have l: "paren_loop s st i (int d) (c # cs) = ?res ?d (Suc i)" .
    have "span_content d (c # cs) = map_option ((#) c) (span_content ?d cs)"
      using False by simp
    then show ?thesis unfolding l using shift [of ?d] by simp
  qed
qed

lemma extract_paren_content_suffix:
  assumes "drop i line = CHR ''('' # cs"
  shows "extract_paren_content line i =
           map_option (\<lambda>content. (content, Suc i + length content)) (span_content 1 cs)"
proof -
  have lt: "i < length line" and at: "line ! i = CHR ''(''"
    using drop_at(1,2) [OF assms] by auto
  have cs: "drop (Suc i) line = cs"
    using drop_at(3) [OF assms, of 1] by simp
  have "extract_paren_content line i = paren_loop line i (Suc i) (int 1) cs"
    using lt at assms by (simp add: extract_paren_content_def)
  also have "\<dots> = (case span_content 1 cs of None \<Rightarrow> None
      | Some content \<Rightarrow> Some (slice line (Suc i) (Suc i + length content), Suc i + length content))"
    by (rule paren_loop_span) simp
  finally have e: "extract_paren_content line i = (case span_content 1 cs of None \<Rightarrow> None
      | Some content \<Rightarrow> Some (slice line (Suc i) (Suc i + length content), Suc i + length content))" .
  show ?thesis
  proof (cases "span_content 1 cs")
    case None
    then show ?thesis using e by simp
  next
    case (Some content)
    then obtain r where "cs = content @ CHR '')'' # r"
      using span_content_prefix by blast
    then have "slice line (Suc i) (Suc i + length content) = content"
      using cs by (simp add: slice_def)
    then show ?thesis using e Some by simp
  qed
qed

lemma find_loop_shift: "find_loop sub s j = map_option (\<lambda>k. k + j) (find_loop sub s 0)"
proof (induction s arbitrary: j)
  case Nil
  then show ?case by simp
next
  case (Cons c cs)
  have "find_loop sub cs (Suc j) = map_option (\<lambda>k. k + Suc j) (find_loop sub cs 0)"
    "find_loop sub cs (Suc 0) = map_option (\<lambda>k. k + Suc 0) (find_loop sub cs 0)"
    using Cons.IH by blast+
  then show ?case by (cases "find_loop sub cs 0") auto
qed

lemma py_find_suffix:
  assumes "drop i line = D" "k \<le> length D" "i < length line"
  shows "py_find line sub (i + k) = map_option (\<lambda>n. n + (i + k)) (find_loop sub (drop k D) 0)"
proof -
  have "length D = length line - i" using assms(1) by auto
  then have "i + k \<le> length line" using assms(2,3) by simp
  moreover have "drop (i + k) line = drop k D"
    using assms(1) by (simp add: add.commute [of i k] flip: drop_drop)
  ultimately show ?thesis
    using find_loop_shift [of sub "drop k D" "i + k"] by (simp add: py_find_def)
qed


lemma cip_loop_verbatim:
  assumes "i < length line" "cip_step line i = (slice line i j, j)" "i < j"
    "cip_loop line j = drop j line"
  shows "cip_loop line i = drop i line"
  using cip_loop_step [OF assms(1,2)] assms(3,4) by (simp add: slice_drop)

lemma cip_step_literal:
  assumes "drop i line = c # cs" "c \<noteq> CHR ''$''"
    "c = CHR ''('' \<longrightarrow> (\<forall>content. span_content 1 cs = Some content \<longrightarrow> \<not> is_math content)"
  shows "cip_step line i = (slice line i (Suc i), Suc i)"
proof -
  have at: "i < length line" "line ! i = c" using drop_at(1,2) [OF assms(1)] by auto
  have "cip_step line i = ([line ! i], Suc i)"
  proof (cases "c = CHR ''(''")
    case False
    then show ?thesis using at assms(2) by (simp add: cip_step_def)
  next
    case True
    then have e: "extract_paren_content line i =
        map_option (\<lambda>content. (content, Suc i + length content)) (span_content 1 cs)"
      using extract_paren_content_suffix assms(1) by simp
    show ?thesis
      using at assms(2,3) True e
      by (cases "span_content 1 cs") (simp_all add: cip_step_def)
  qed
  then show ?thesis using slice_one [OF at(1)] by simp
qed

lemma cip_step_dollar_unmatched:
  assumes "drop i line = CHR ''$'' # cs"
    "if starts_with cs ''$'' then find_loop ''$$'' (drop 1 cs) 0 = None
     else find_loop ''$'' cs 0 = None"
  shows "cip_step line i = (slice line i (Suc i), Suc i)"
proof -
  have at: "i < length line" "line ! i = CHR ''$''" using drop_at(1,2) [OF assms(1)] by auto
  have s2: "slice line i (i + 2) = take 2 (CHR ''$'' # cs)"
    using assms(1) by (simp add: slice_def)
  have "cip_step line i = ([line ! i], Suc i)"
  proof (cases "starts_with cs ''$''")
    case True
    then obtain ds where ds: "cs = CHR ''$'' # ds" by (auto simp: starts_with_iff)
    have "py_find line ''$$'' (i + 2) = None"
      using py_find_suffix [OF assms(1) _ at(1), of 2 "''$$''"] assms(2) True ds by simp
    then show ?thesis using at s2 ds by (simp add: cip_step_def)
  next
    case False
    then have n: "take 2 (CHR ''$'' # cs) \<noteq> ''$$''"
      by (cases cs) (auto simp: starts_with_iff)
    have "py_find line ''$'' (i + 1) = None"
      using py_find_suffix [OF assms(1) _ at(1), of 1 "''$''"] assms(2) False by simp
    then show ?thesis using at s2 n by (simp add: cip_step_def)
  qed
  then show ?thesis using slice_one [OF at(1)] by simp
qed

lemma cip_step_dollar_span:
  assumes "drop i line = CHR ''$'' # cs"
    "if starts_with cs ''$'' then find_loop ''$$'' (drop 1 cs) 0 = Some k \<and> n = k + 4
     else find_loop ''$'' cs 0 = Some k \<and> n = k + 2"
  shows "cip_step line i = (slice line i (i + n), i + n)"
proof -
  have at: "i < length line" "line ! i = CHR ''$''" using drop_at(1,2) [OF assms(1)] by auto
  have s2: "slice line i (i + 2) = take 2 (CHR ''$'' # cs)"
    using assms(1) by (simp add: slice_def)
  show ?thesis
  proof (cases "starts_with cs ''$''")
    case True
    then obtain ds where ds: "cs = CHR ''$'' # ds" by (auto simp: starts_with_iff)
    have "py_find line ''$$'' (i + 2) = Some (k + (i + 2))"
      using py_find_suffix [OF assms(1) _ at(1), of 2 "''$$''"] assms(2) True ds by simp
    then have "cip_step line i = (slice line i (k + (i + 2) + 2), k + (i + 2) + 2)"
      using at s2 ds by (simp add: cip_step_def)
    moreover have "k + (i + 2) + 2 = i + n" using assms(2) True by simp
    ultimately show ?thesis by (simp only:)
  next
    case False
    then have ne: "take 2 (CHR ''$'' # cs) \<noteq> ''$$''"
      by (cases cs) (auto simp: starts_with_iff)
    have "py_find line ''$'' (i + 1) = Some (k + (i + 1))"
      using py_find_suffix [OF assms(1) _ at(1), of 1 "''$''"] assms(2) False by simp
    then have "cip_step line i = (slice line i (k + (i + 1) + 1), k + (i + 1) + 1)"
      using at s2 ne by (simp add: cip_step_def)
    moreover have "k + (i + 1) + 1 = i + n" using assms(2) False by simp
    ultimately show ?thesis by (simp only:)
  qed
qed

lemma cip_loop_no_convertible:
  "no_convertible_span (drop i line) \<Longrightarrow> cip_loop line i = drop i line"
proof (induction line i rule: cip_loop.induct)
  case (1 line i)
  show ?case
  proof (cases "drop i line")
    case Nil
    then show ?thesis by (simp add: cip_loop_end)
  next
    case (Cons c cs)
    note lt = drop_at(1) [OF Cons]
    have next1: "drop (Suc i) line = cs"
      using drop_at(3) [OF Cons, of 1] by simp
    have literal: "cip_loop line i = drop i line"
      if st: "cip_step line i = (slice line i (Suc i), Suc i)" and p: "no_convertible_span cs"
    proof -
      have "cip_loop line (Suc i) = drop (Suc i) line"
        using "1.IH" [OF lt st [symmetric]] p next1 by simp
      then show ?thesis using cip_loop_verbatim [OF lt st] by simp
    qed
    show ?thesis
    proof (cases "c = CHR ''$''")
      case False
      have p: "no_convertible_span cs"
        "c = CHR ''('' \<longrightarrow> (\<forall>content. span_content 1 cs = Some content \<longrightarrow> \<not> is_math content)"
        using "1.prems" Cons False by (auto split: option.splits if_splits)
      show ?thesis
        using literal [OF cip_step_literal [OF Cons False p(2)] p(1)] .
    next
      case True
      let ?f = "if starts_with cs ''$'' then find_loop ''$$'' (drop 1 cs) 0 else find_loop ''$'' cs 0"
      show ?thesis
      proof (cases ?f)
        case None
        then have u: "if starts_with cs ''$'' then find_loop ''$$'' (drop 1 cs) 0 = None
          else find_loop ''$'' cs 0 = None"
          by (simp split: if_splits)
        have p: "no_convertible_span cs"
          using "1.prems" Cons True None by (auto split: if_splits)
        show ?thesis
          using literal [OF cip_step_dollar_unmatched [OF _ u] p] Cons True by simp
      next
        case (Some k)
        let ?n = "if starts_with cs ''$'' then k + 4 else k + 2"
        have u: "if starts_with cs ''$'' then find_loop ''$$'' (drop 1 cs) 0 = Some k \<and> ?n = k + 4
          else find_loop ''$'' cs 0 = Some k \<and> ?n = k + 2"
          using Some by (simp split: if_splits)
        have D: "drop i line = CHR ''$'' # cs" using Cons True by simp
        have st: "cip_step line i = (slice line i (i + ?n), i + ?n)"
          using cip_step_dollar_span [OF D u] .
        have p: "no_convertible_span (drop (?n - 1) cs)"
          using "1.prems" Cons True Some by (auto split: if_splits simp: add.commute)
        have "drop (i + ?n) line = drop ?n (CHR ''$'' # cs)"
          using drop_at(3) [OF D, of ?n] .
        also have "\<dots> = drop (?n - 1) cs"
          by (simp add: drop_Cons')
        finally have "no_convertible_span (drop (i + ?n) line)" using p by simp
        then have "cip_loop line (i + ?n) = drop (i + ?n) line"
          using "1.IH" [OF lt st [symmetric]] by simp
        moreover have "i < i + ?n" by simp
        ultimately show ?thesis
          using cip_loop_verbatim [OF lt st] by blast
      qed
    qed
  qed
qed

lemma convert_inline_parens_no_convertible:
  "no_convertible_span l \<Longrightarrow> convert_inline_parens l = l"
  using cip_loop_no_convertible [of 0 l] by (simp add: convert_inline_parens_def)

lemma fence_nonempty: "starts_with (strip l) ''```'' \<Longrightarrow> l \<noteq> []"
  by (auto simp: strip_def lstrip_def rstrip_def)

lemma collapse_blank_text:
  "list_all (\<lambda>l. l \<noteq> []) body \<Longrightarrow> body \<noteq> []
     \<Longrightarrow> collapse_blank b (body @ rest) = body @ collapse_blank False rest"
proof (induction body arbitrary: b)
  case Nil
  then show ?case by simp
next
  case (Cons l body)
  then show ?case by (cases body) auto
qed

lemma process_blank_line: "process False ([] # rest) = [] # process False rest"
  by (simp add: process.simps(2) strip_def lstrip_def rstrip_def is_remote_image_def
      escape_hash_in_math_def convert_inline_parens_def cip_loop_end)

lemma cleaned_line_nonempty: "list_all cleaned_line ls \<Longrightarrow> list_all (\<lambda>l. l \<noteq> []) ls"
  by (induction ls) (auto simp: cleaned_line_def)

lemma process_converted:
  "converted in_code prev_blank ls \<Longrightarrow> collapse_blank prev_blank (process in_code ls) = ls"
proof (induction in_code prev_blank ls rule: converted.induct)
  case (1 in_code prev_blank)
  then show ?case by simp
next
  case (2 in_code prev_blank l rest)
  show ?case
  proof (cases "starts_with (strip l) ''```''")
    case True
    then have "collapse_blank False (process (\<not> in_code) rest) = rest"
      using 2 by simp
    then show ?thesis
      using True fence_nonempty [OF True] by (simp add: process.simps(2))
  next
    case nf: False
    show ?thesis
    proof (cases in_code)
      case True
      then have "\<not> (prev_blank \<and> l = [])"
        "collapse_blank (l = []) (process in_code rest) = rest"
        using 2 nf by auto
      then show ?thesis
        using nf True by (auto simp: process.simps(2))
    next
      case nc: False
      show ?thesis
      proof (cases "strip l = ''$$''")
        case True
        let ?body = "takeWhile (not_close ''$$'') rest"
        let ?after = "dropWhile (not_close ''$$'') rest"
        have c: "l = ''$$''" "prev_blank" "?body \<noteq> []" "list_all cleaned_line ?body"
          "take 2 ?after = [''$$'', []]" "converted in_code True (drop 2 ?after)"
          using "2.prems" nf nc True by auto
        obtain rest' where a: "?after = ''$$'' # [] # rest'"
          using c(5) by (cases ?after; cases "tl ?after") auto
        have rest: "rest = ?body @ ''$$'' # [] # rest'"
          using a takeWhile_dropWhile_id [of "not_close ''$$''" rest] by simp
        have ih: "collapse_blank True (process in_code rest') = rest'"
          using "2.IH"(3) [OF nf nc True] c a by simp
        have db: "display_block ?body = [[], ''$$''] @ ?body @ [''$$'', []]"
          using c(3,4) by (simp add: display_block_def clean_display_lines_id)
        have "process in_code (l # rest)
                = display_block ?body @ process in_code (drop 1 ?after)"
          using nf nc True dollars_line_not_special [OF True]
          by (subst process.simps(2)) simp
        then have "process in_code (l # rest)
                = ([[], ''$$''] @ ?body @ [''$$'', []]) @ [] # process False rest'"
          using nc db a by (simp add: process_blank_line)
        then have "collapse_blank prev_blank (process in_code (l # rest))
                = ''$$'' # collapse_blank False (?body @ ''$$'' # [] # [] # process False rest')"
          using c(2) by simp
        also have "\<dots> = ''$$'' # ?body @ collapse_blank False (''$$'' # [] # [] # process False rest')"
          using collapse_blank_text [OF cleaned_line_nonempty [OF c(4)] c(3)] by simp
        also have "\<dots> = ''$$'' # ?body @ ''$$'' # [] # rest'"
          using ih nc by simp
        finally show ?thesis using c(1) rest by simp
      next
        case nd: False
        then have c: "\<not> (prev_blank \<and> l = [])" "\<not> is_remote_image l" "strip l \<noteq> ''[''"
          "hashes_escaped False l" "no_convertible_span l"
          "collapse_blank (l = []) (process in_code rest) = rest"
          using 2 nf nc by auto
        have "convert_inline_parens (escape_hash_in_math l) = l"
          using c(4,5)
          by (simp add: escape_hash_in_math_def hash_loop_escaped convert_inline_parens_no_convertible)
        then have "process in_code (l # rest) = l # process in_code rest"
          using nf nc nd c(2,3) by (simp add: process.simps(2))
        then show ?thesis using c(1,6) by auto
      qed
    qed
  qed
qed

text \<open>
  C7, as amended. A document in converted form, in the sense of \<open>converted\<close>, is a
  fixed point of the transformation. Parentheses without a recognized command and
  unmatched dollar signs are allowed.
\<close>

theorem converted_document_fixed:
  assumes "converted False False (split_nl d)"
  shows "fix_content d = d"
  using process_converted [OF assms] by (simp add: fix_content_def fix_lines_def join_split_nl)

theorem converted_document_fixed_witness:
  "fix_content
     (''see (Fig. 1), costs $5\<newline>Let $f(x)$ be '' @ bsl # ''# 1\<newline>\<newline>$$\<newline>x = y\<newline>$$\<newline>\<newline>```\<newline>(a) #\<newline>\<newline>```'')
   = ''see (Fig. 1), costs $5\<newline>Let $f(x)$ be '' @ bsl # ''# 1\<newline>\<newline>$$\<newline>x = y\<newline>$$\<newline>\<newline>```\<newline>(a) #\<newline>\<newline>```''"
proof -
  have "converted False False (split_nl
     (''see (Fig. 1), costs $5\<newline>Let $f(x)$ be '' @ bsl # ''# 1\<newline>\<newline>$$\<newline>x = y\<newline>$$\<newline>\<newline>```\<newline>(a) #\<newline>\<newline>```''))"
    by code_simp
  then show ?thesis by (rule converted_document_fixed)
qed

text \<open>
  The transformation is not a fixed point on all of its own output. The output below has
  its math inside a closed dollar span, no convertible parenthesized span and no separator
  line; it starts like a remote image, and the second run drops it.
\<close>

theorem converted_output_not_fixed:
  "fix_content (''![('' @ bsl # ''alpha ]$($https://))'') = ''![$'' @ bsl # ''alpha ](https://)$''
   \<and> fix_content (''![$'' @ bsl # ''alpha ](https://)$'') = []
   \<and> fix_content (fix_content (''![('' @ bsl # ''alpha ]$($https://))''))
       \<noteq> fix_content (''![('' @ bsl # ''alpha ]$($https://))'')"
proof -
  have 1: "fix_content (''![('' @ bsl # ''alpha ]$($https://))'') = ''![$'' @ bsl # ''alpha ](https://)$''"
    by code_simp
  have 2: "fix_content (''![$'' @ bsl # ''alpha ](https://)$'') = []"
    by code_simp
  show ?thesis unfolding 1 2 by simp
qed

end
